theory Spec2Isabelle
  imports Complex_Main
begin

section \<open>Values exchanged with the outside world\<close>

text \<open>
  The checkers talk to three collaborators they do not control: the proxy directory
  (\<^verbatim>\<open>FreeProxy(rand=True, timeout=5).get()\<close>), the HTTP session
  (\<^verbatim>\<open>self.session.get\<close>, \<^verbatim>\<open>self.session.post\<close>) and the random number generator.
  Each call either returns a value or raises. Only the class of a raised exception matters
  to the handlers of the source: \<^verbatim>\<open>requests.exceptions.RequestException\<close> or any other
  \<^verbatim>\<open>Exception\<close>.
\<close>

datatype exn = RequestException | OtherException

datatype 'a outcome = Raises exn | Returns 'a

text \<open>
  A decoded JSON document, which is also the Python value that \<^verbatim>\<open>response.json()\<close>
  hands back; \<open>JNull\<close> is Python's \<^verbatim>\<open>None\<close>. Numbers are kept as integers.
  An object keeps its members in document order.
\<close>

datatype json =
    JNull
  | JBool bool
  | JNum int
  | JStr string
  | JArr "json list"
  | JObj "(string \<times> json) list"

text \<open>Python truthiness, as tested by \<^verbatim>\<open>if token:\<close>.\<close>

fun truthy :: "json \<Rightarrow> bool" where
  "truthy JNull = False"
| "truthy (JBool b) = b"
| "truthy (JNum n) = (n \<noteq> 0)"
| "truthy (JStr s) = (s \<noteq> [])"
| "truthy (JArr xs) = (xs \<noteq> [])"
| "truthy (JObj kvs) = (kvs \<noteq> [])"

text \<open>
  \<^verbatim>\<open>d.get(k)\<close> on a decoded object: the last member with that name wins (as the
  decoder builds the dict), and a missing key gives \<^verbatim>\<open>None\<close>.
\<close>

definition dict_get :: "(string \<times> json) list \<Rightarrow> string \<Rightarrow> json" where
  "dict_get kvs k = (case map_of (rev kvs) k of None \<Rightarrow> JNull | Some v \<Rightarrow> v)"

text \<open>
  An HTTP response: its status code, its text, and what \<^verbatim>\<open>response.json()\<close> gives
  (\<open>None\<close> when the body is not JSON and the call raises \<^verbatim>\<open>json.JSONDecodeError\<close>).
\<close>

record response =
  status_code :: int
  text_of :: string
  json_body :: "json option"

datatype request =
    GET string
  | POST string "(string \<times> string) list"

datatype event =
    Exchange request "response outcome"
  | Sleep real

text \<open>
  The world: what the \<open>n\<close>-th call of each collaborator answers, how many calls were made
  so far, and the trace of what the program did (requests with their answers, sleeps).
  An HTTP answer may depend on the session's proxy setting and on the request. The headers
  and timeouts of the requests are constants of the source and are left out; a timeout shows
  as a raised exception. Logging is left out as well: no branch of the source depends on it.
  The counters and the trace are bookkeeping of the model, the source keeps no such record;
  through them the theorems speak about the requests and the sleeps of a call.
\<close>

record world =
  proxy_src :: "nat \<Rightarrow> string option outcome"
  http_src :: "nat \<Rightarrow> (string \<times> string) list \<Rightarrow> request \<Rightarrow> response outcome"
  random_src :: "nat \<Rightarrow> real"
  proxy_calls :: nat
  http_calls :: nat
  random_calls :: nat
  trace :: "event list"

definition free_proxy_get :: "world \<Rightarrow> string option outcome \<times> world" where
  "free_proxy_get w = (proxy_src w (proxy_calls w), w\<lparr>proxy_calls := Suc (proxy_calls w)\<rparr>)"

definition session_request ::
  "(string \<times> string) list \<Rightarrow> request \<Rightarrow> world \<Rightarrow> response outcome \<times> world" where
  "session_request proxies req w =
     (let r = http_src w (http_calls w) proxies req
      in (r, w\<lparr>http_calls := Suc (http_calls w), trace := trace w @ [Exchange req r]\<rparr>))"

definition sleep :: "real \<Rightarrow> world \<Rightarrow> world" where
  "sleep d w = w\<lparr>trace := trace w @ [Sleep d]\<rparr>"

definition random_random :: "world \<Rightarrow> real \<times> world" where
  "random_random w = (random_src w (random_calls w), w\<lparr>random_calls := Suc (random_calls w)\<rparr>)"

text \<open>\<^verbatim>\<open>random.uniform(a, b)\<close> is \<^verbatim>\<open>a + (b - a) * random()\<close>.\<close>

definition random_uniform :: "real \<Rightarrow> real \<Rightarrow> world \<Rightarrow> real \<times> world" where
  "random_uniform a b w = (case random_random w of (x, w') \<Rightarrow> (a + (b - a) * x, w'))"

section \<open>The checker of \<^verbatim>\<open>kroger_checker_strict_proxy.py\<close>\<close>

text \<open>The result dict built by \<^verbatim>\<open>check_single\<close>, keys \<^verbatim>\<open>email, password, valid, proxy\<close>.\<close>

record result =
  res_email :: string
  res_password :: string
  res_valid :: bool
  res_proxy :: "string option"

text \<open>
  The attributes of \<^verbatim>\<open>KrogerChecker\<close>; of the session only \<^verbatim>\<open>session.proxies\<close>
  changes, a dict that is empty or maps \<^verbatim>\<open>http\<close> and \<^verbatim>\<open>https\<close> to the proxy.
\<close>

record checker =
  use_proxy :: bool
  proxy :: "string option"
  session_proxies :: "(string \<times> string) list"
  valid_creds :: "result list"
  invalid_creds :: "result list"

definition home_url :: string where
  "home_url = ''https://www.kroger.com''"

definition signin_url :: string where
  "signin_url = ''https://www.kroger.com/signin''"

definition login_url :: string where
  "login_url = ''https://www.kroger.com/auth/api/login''"

subsection \<open>\<^verbatim>\<open>_rotate_proxy\<close>\<close>

text \<open>
  One iteration of the loop of \<^verbatim>\<open>_rotate_proxy\<close> (the same text in
  \<^verbatim>\<open>kroger_checker_final.py\<close>). The flag says whether the iteration executed
  \<^verbatim>\<open>return True\<close>; otherwise the loop goes on. The fetched proxy is stored in
  \<^verbatim>\<open>self.proxy\<close> before it is tested; an exception of the fetch is followed by
  \<^verbatim>\<open>time.sleep(1)\<close>, an exception of the test request by \<^verbatim>\<open>continue\<close>.
\<close>

definition rotate_once :: "checker \<Rightarrow> world \<Rightarrow> bool \<times> checker \<times> world" where
  "rotate_once s w =
     (case free_proxy_get w of
        (Raises e, w1) \<Rightarrow> (False, s, sleep 1 w1)
      | (Returns None, w1) \<Rightarrow> (False, s\<lparr>proxy := None\<rparr>, w1)
      | (Returns (Some p), w1) \<Rightarrow>
          if p = [] then (False, s\<lparr>proxy := Some p\<rparr>, w1)
          else
            let s1 = s\<lparr>proxy := Some p, session_proxies := [(''http'', p), (''https'', p)]\<rparr>
            in (case session_request (session_proxies s1) (GET home_url) w1 of
                  (Raises e, w2) \<Rightarrow> (False, s1, w2)
                | (Returns test_response, w2) \<Rightarrow> (status_code test_response = 200, s1, w2)))"

text \<open>\<^verbatim>\<open>for attempt in range(max_retries)\<close>, over the values still to come.\<close>

fun rotate_loop :: "nat list \<Rightarrow> checker \<Rightarrow> world \<Rightarrow> bool \<times> checker \<times> world" where
  "rotate_loop [] s w = (False, s, w)"
| "rotate_loop (attempt # rest) s w =
     (case rotate_once s w of
        (True, s', w') \<Rightarrow> (True, s', w')
      | (False, s', w') \<Rightarrow> rotate_loop rest s' w')"

definition rotate_proxy :: "bool \<Rightarrow> checker \<Rightarrow> world \<Rightarrow> bool \<times> checker \<times> world" where
  "rotate_proxy strict s w =
     (let max_retries = (if strict then 5 else 3 :: nat)
      in case rotate_loop [0..<max_retries] s w of
           (True, s', w') \<Rightarrow> (True, s', w')
         | (False, s', w') \<Rightarrow>
             if strict then (False, s', w')
             else (True, s'\<lparr>proxy := None, session_proxies := []\<rparr>, w'))"

subsection \<open>\<^verbatim>\<open>_extract_csrf\<close>\<close>

text \<open>
  \<^verbatim>\<open>if '_csrf":"' in html: return html.split('_csrf":"')[1].split('"')[0]\<close>, else the
  placeholder. \<open>after_marker\<close> is the text behind the leftmost occurrence of the
  separator, \<open>before_marker\<close> the text in front of the leftmost occurrence (all of it when
  there is none): together they give element 1 of the split.
\<close>

definition csrf_marker :: string where
  \<open>csrf_marker = ''_csrf":"''\<close>

fun after_marker :: "string \<Rightarrow> string \<Rightarrow> string option" where
  "after_marker m [] = (if m = [] then Some [] else None)"
| "after_marker m (c # cs) =
     (if take (length m) (c # cs) = m then Some (drop (length m) (c # cs))
      else after_marker m cs)"

fun before_marker :: "string \<Rightarrow> string \<Rightarrow> string" where
  "before_marker m [] = []"
| "before_marker m (c # cs) =
     (if take (length m) (c # cs) = m then [] else c # before_marker m cs)"

definition extract_csrf :: "string \<Rightarrow> string" where
  \<open>extract_csrf html =
     (case after_marker csrf_marker html of
        Some rest \<Rightarrow> takeWhile (\<lambda>c. c \<noteq> CHR ''"'') (before_marker csrf_marker rest)
      | None \<Rightarrow> ''dummy_csrf_token'')\<close>

subsection \<open>\<^verbatim>\<open>_get_auth_token\<close>\<close>

text \<open>How one iteration of the retry loop ends: with a \<^verbatim>\<open>return\<close> or with \<^verbatim>\<open>continue\<close>.\<close>

datatype step = Return json | Continue

text \<open>
  The two \<^verbatim>\<open>except\<close> clauses of the loop body. A \<^verbatim>\<open>RequestException\<close> on an
  attempt that is not the last rotates the proxy, gives up when that fails, and otherwise
  sleeps 2 seconds and continues; anything else returns \<^verbatim>\<open>None\<close>.
\<close>

definition on_error :: "nat \<Rightarrow> nat \<Rightarrow> exn \<Rightarrow> checker \<Rightarrow> world \<Rightarrow> step \<times> checker \<times> world" where
  "on_error max_retries attempt e s w =
     (case e of
        RequestException \<Rightarrow>
          if attempt < max_retries - 1 then
            (case rotate_proxy (use_proxy s) s w of
               (False, s', w') \<Rightarrow> (Return JNull, s', w')
             | (True, s', w') \<Rightarrow> (Continue, s', sleep 2 w'))
          else (Return JNull, s, w)
      | OtherException \<Rightarrow> (Return JNull, s, w))"

text \<open>
  The body of the loop. A 200 answer returns \<^verbatim>\<open>response.json().get('token')\<close>: a body
  that is not JSON returns \<^verbatim>\<open>None\<close>, and a JSON value that is no object has no
  \<^verbatim>\<open>get\<close>, which lands in \<^verbatim>\<open>except Exception\<close>. A 403 or 429 answer rotates the
  proxy and continues without sleeping. Any other status returns \<^verbatim>\<open>None\<close>.
\<close>

definition attempt_once ::
  "nat \<Rightarrow> nat \<Rightarrow> string \<Rightarrow> string \<Rightarrow> checker \<Rightarrow> world \<Rightarrow> step \<times> checker \<times> world" where
  "attempt_once max_retries attempt email password s w =
     (case session_request (session_proxies s) (GET signin_url) w of
        (Raises e, w1) \<Rightarrow> on_error max_retries attempt e s w1
      | (Returns login_page, w1) \<Rightarrow>
          let csrf_token = extract_csrf (text_of login_page);
              payload = [(''email'', email), (''password'', password), (''_csrf'', csrf_token)]
          in (case session_request (session_proxies s) (POST login_url payload) w1 of
                (Raises e, w2) \<Rightarrow> on_error max_retries attempt e s w2
              | (Returns response, w2) \<Rightarrow>
                  if status_code response = 200 then
                    (case json_body response of
                       None \<Rightarrow> (Return JNull, s, w2)
                     | Some (JObj kvs) \<Rightarrow> (Return (dict_get kvs ''token''), s, w2)
                     | Some _ \<Rightarrow> on_error max_retries attempt OtherException s w2)
                  else if status_code response = 403 \<or> status_code response = 429 then
                    (case rotate_proxy (use_proxy s) s w2 of
                       (False, s', w') \<Rightarrow> (Return JNull, s', w')
                     | (True, s', w') \<Rightarrow> (Continue, s', w'))
                  else (Return JNull, s, w2)))"

text \<open>
  \<^verbatim>\<open>for attempt in range(max_retries)\<close>; a loop that runs out falls off the end of the
  function, which returns \<^verbatim>\<open>None\<close>.
\<close>

fun auth_loop ::
  "nat \<Rightarrow> nat list \<Rightarrow> string \<Rightarrow> string \<Rightarrow> checker \<Rightarrow> world \<Rightarrow> json \<times> checker \<times> world" where
  "auth_loop max_retries [] email password s w = (JNull, s, w)"
| "auth_loop max_retries (attempt # rest) email password s w =
     (case attempt_once max_retries attempt email password s w of
        (Return token, s', w') \<Rightarrow> (token, s', w')
      | (Continue, s', w') \<Rightarrow> auth_loop max_retries rest email password s' w')"

definition get_auth_token :: "string \<Rightarrow> string \<Rightarrow> checker \<Rightarrow> world \<Rightarrow> json \<times> checker \<times> world" where
  "get_auth_token email password s w =
     (let max_retries = 2 in auth_loop max_retries [0..<max_retries] email password s w)"

subsection \<open>\<^verbatim>\<open>check_credentials\<close>, \<^verbatim>\<open>check_single\<close>, \<^verbatim>\<open>check_bulk\<close>\<close>

definition check_credentials :: "string \<Rightarrow> string \<Rightarrow> checker \<Rightarrow> world \<Rightarrow> bool \<times> checker \<times> world" where
  "check_credentials email password s w =
     (case get_auth_token email password s w of
        (token, s', w') \<Rightarrow> (if truthy token then True else False, s', w'))"

definition check_single :: "string \<Rightarrow> string \<Rightarrow> checker \<Rightarrow> world \<Rightarrow> result \<times> checker \<times> world" where
  "check_single email password s w =
     (case check_credentials email password s w of
        (is_valid, s', w') \<Rightarrow>
          let result = \<lparr>res_email = email, res_password = password, res_valid = is_valid,
                         res_proxy = proxy s'\<rparr>
          in if is_valid then (result, s'\<lparr>valid_creds := valid_creds s' @ [result]\<rparr>, w')
             else (result, s'\<lparr>invalid_creds := invalid_creds s' @ [result]\<rparr>, w'))"

text \<open>
  The only exception of the batch loop that no handler catches: \<^verbatim>\<open>cred['email']\<close> or
  \<^verbatim>\<open>cred['password']\<close> on a dict without that key.
\<close>

datatype error = KeyError string

text \<open>
  What \<^verbatim>\<open>check_bulk\<close> does between two pairs. \<^verbatim>\<open>random.random()\<close> is drawn only when
  \<^verbatim>\<open>self.use_proxy\<close> holds (\<^verbatim>\<open>and\<close> is short-circuit); the result of the forced
  rotation is dropped; then \<^verbatim>\<open>time.sleep(random.uniform(1, 3))\<close>.
\<close>

definition pace :: "checker \<Rightarrow> world \<Rightarrow> checker \<times> world" where
  "pace s w =
     (case (if use_proxy s then
              (case random_random w of
                 (x, wr) \<Rightarrow>
                   if x > 7 / 10 then (case rotate_proxy True s wr of (ok, s', w') \<Rightarrow> (s', w'))
                   else (s, wr))
            else (s, w)) of
        (s2, w2) \<Rightarrow> (case random_uniform 1 3 w2 of (d, w3) \<Rightarrow> (s2, sleep d w3)))"

text \<open>
  The loop of \<^verbatim>\<open>check_bulk\<close> with the list \<^verbatim>\<open>results\<close> built so far. A \<^verbatim>\<open>KeyError\<close>
  leaves the function, so the call has no result then.
\<close>

fun check_bulk_loop ::
  "(string \<rightharpoonup> string) list \<Rightarrow> result list \<Rightarrow> checker \<Rightarrow> world
     \<Rightarrow> error + (result list \<times> checker \<times> world)" where
  "check_bulk_loop [] results s w = Inr (results, s, w)"
| "check_bulk_loop (cred # rest) results s w =
     (case cred ''email'' of
        None \<Rightarrow> Inl (KeyError ''email'')
      | Some email \<Rightarrow>
          (case cred ''password'' of
             None \<Rightarrow> Inl (KeyError ''password'')
           | Some password \<Rightarrow>
               (case check_single email password s w of
                  (result, s1, w1) \<Rightarrow>
                    (case pace s1 w1 of
                       (s2, w2) \<Rightarrow> check_bulk_loop rest (results @ [result]) s2 w2))))"

definition check_bulk ::
  "(string \<rightharpoonup> string) list \<Rightarrow> checker \<Rightarrow> world \<Rightarrow> error + (result list \<times> checker \<times> world)" where
  "check_bulk credentials s w = check_bulk_loop credentials [] s w"

text \<open>\<^verbatim>\<open>__init__\<close>.\<close>

definition init_checker :: "bool \<Rightarrow> world \<Rightarrow> checker \<times> world" where
  "init_checker up w =
     (let s = \<lparr>use_proxy = up, proxy = None, session_proxies = [], valid_creds = [],
                invalid_creds = []\<rparr>
      in if up then (case rotate_proxy True s w of (ok, s', w') \<Rightarrow> (s', w')) else (s, w))"

text \<open>Successive calls of \<^verbatim>\<open>check_single\<close>, as the interactive menu or a caller makes them.\<close>

fun check_each ::
  "(string \<times> string) list \<Rightarrow> checker \<Rightarrow> world \<Rightarrow> result list \<times> checker \<times> world" where
  "check_each [] s w = ([], s, w)"
| "check_each ((email, password) # rest) s w =
     (case check_single email password s w of
        (r, s1, w1) \<Rightarrow> (case check_each rest s1 w1 of (rs, s2, w2) \<Rightarrow> (r # rs, s2, w2)))"

section \<open>The token extractor of \<^verbatim>\<open>kroger_checker_final.py\<close>\<close>

text \<open>
  The four patterns of \<^verbatim>\<open>_extract_csrf\<close> are sequences of single characters and of
  repetitions of one character class; the only group is \<^verbatim>\<open>([^"]+)\<close>. The syntax below
  covers exactly that. Characters are code points below 256; \<^verbatim>\<open>\s\<close> on a \<^verbatim>\<open>str\<close>
  pattern is Unicode white space, which below 256 is 9 to 13, 28 to 32, 133 and 160; with
  \<^verbatim>\<open>re.DOTALL\<close> the dot matches every character.
\<close>

datatype cclass = Ch char | Space | Dot | NotCh char

definition is_space :: "char \<Rightarrow> bool" where
  "is_space c =
     (let n = (of_char c :: nat)
      in (9 \<le> n \<and> n \<le> 13) \<or> (28 \<le> n \<and> n \<le> 32) \<or> n = 133 \<or> n = 160)"

fun in_class :: "cclass \<Rightarrow> char \<Rightarrow> bool" where
  "in_class (Ch a) c = (c = a)"
| "in_class Space c = is_space c"
| "in_class Dot c = True"
| "in_class (NotCh a) c = (c \<noteq> a)"

datatype atom =
    One cclass
  | Plus cclass
  | Star cclass
  | LazyStar cclass
  | CapPlus cclass

fun first_some :: "'a option list \<Rightarrow> 'a option" where
  "first_some [] = None"
| "first_some (None # xs) = first_some xs"
| "first_some (Some x # xs) = Some x"

text \<open>
  Backtracking in the order of \<^verbatim>\<open>re\<close>: a greedy repetition tries the longest run first
  and gives characters back one at a time, a lazy one tries the shortest first. The result
  is group 1 of the first path that matches the whole pattern at this position (\<open>Some None\<close>
  when the group took no part).
\<close>

fun match_here :: "atom list \<Rightarrow> string \<Rightarrow> string option \<Rightarrow> string option option" where
  "match_here [] s cap = Some cap"
| "match_here (One c # rest) s cap =
     (case s of [] \<Rightarrow> None | x # xs \<Rightarrow> if in_class c x then match_here rest xs cap else None)"
| "match_here (Plus c # rest) s cap =
     first_some (map (\<lambda>k. match_here rest (drop k s) cap)
                     (rev [1..<Suc (length (takeWhile (in_class c) s))]))"
| "match_here (Star c # rest) s cap =
     first_some (map (\<lambda>k. match_here rest (drop k s) cap)
                     (rev [0..<Suc (length (takeWhile (in_class c) s))]))"
| "match_here (LazyStar c # rest) s cap =
     first_some (map (\<lambda>k. match_here rest (drop k s) cap)
                     [0..<Suc (length (takeWhile (in_class c) s))])"
| "match_here (CapPlus c # rest) s cap =
     first_some (map (\<lambda>k. match_here rest (drop k s) (Some (take k s)))
                     (rev [1..<Suc (length (takeWhile (in_class c) s))]))"

text \<open>\<^verbatim>\<open>re.search\<close>: the leftmost position at which the pattern matches.\<close>

fun re_search :: "atom list \<Rightarrow> string \<Rightarrow> string option option" where
  "re_search p [] = match_here p [] None"
| "re_search p (c # cs) =
     (case match_here p (c # cs) None of
        Some cap \<Rightarrow> Some cap
      | None \<Rightarrow> re_search p cs)"

definition lit :: "string \<Rightarrow> atom list" where
  "lit s = map (\<lambda>c. One (Ch c)) s"

definition dquote :: char where
  \<open>dquote = CHR ''"''\<close>

definition meta_pattern :: "atom list" where
  \<open>meta_pattern =
     lit ''<meta'' @ [Plus Space] @ lit ''name="csrf-token"'' @ [Plus Space]
     @ lit ''content="'' @ [CapPlus (NotCh dquote)] @ lit ''"''\<close>

definition state_pattern :: "atom list" where
  \<open>state_pattern =
     lit ''window.__PRELOADED_STATE__'' @ [Star Space] @ lit ''='' @ [Star Space] @ lit ''{''
     @ [LazyStar Dot] @ lit ''"csrfToken":"'' @ [CapPlus (NotCh dquote)] @ lit ''"''\<close>

definition input_pattern :: "atom list" where
  \<open>input_pattern =
     lit ''<input'' @ [Plus (NotCh CHR ''>'')] @ lit ''name="_csrf"'' @ [Plus (NotCh CHR ''>'')]
     @ lit ''value="'' @ [CapPlus (NotCh dquote)] @ lit ''"''\<close>

definition json_pattern :: "atom list" where
  \<open>json_pattern =
     lit ''"csrfToken"'' @ [Star Space] @ lit '':'' @ [Star Space] @ lit ''"''
     @ [CapPlus (NotCh dquote)] @ lit ''"''\<close>

definition patterns :: "atom list list" where
  "patterns = [meta_pattern, state_pattern, input_pattern, json_pattern]"

text \<open>
  The loop over the patterns. A match whose group is \<^verbatim>\<open>None\<close> would make \<^verbatim>\<open>len\<close>
  raise, and the \<^verbatim>\<open>except\<close> clause returns \<^verbatim>\<open>None\<close>.
\<close>

fun extract_loop :: "atom list list \<Rightarrow> string \<Rightarrow> string option" where
  "extract_loop [] html = None"
| "extract_loop (pattern # rest) html =
     (case re_search pattern html of
        None \<Rightarrow> extract_loop rest html
      | Some None \<Rightarrow> None
      | Some (Some token) \<Rightarrow> if length token > 10 then Some token else extract_loop rest html)"

definition extract_csrf_final :: "string \<Rightarrow> string option" where
  "extract_csrf_final html = extract_loop patterns html"

section \<open>The custom checks of \<^verbatim>\<open>email_checker_final.py\<close>\<close>

text \<open>
  \<^verbatim>\<open>str.lower()\<close> on code points below 256: the ASCII capitals and the Latin-1 capitals
  (192 to 222 without 215) move up by 32.
\<close>

definition py_lower_char :: "char \<Rightarrow> char" where
  "py_lower_char c =
     (let n = (of_char c :: nat)
      in if (65 \<le> n \<and> n \<le> 90) \<or> (192 \<le> n \<and> n \<le> 214) \<or> (216 \<le> n \<and> n \<le> 222)
         then char_of (n + 32) else c)"

definition py_lower :: "string \<Rightarrow> string" where
  "py_lower s = map py_lower_char s"

text \<open>
  One entry of \<^verbatim>\<open>custom_checks.json\<close>: the value under \<^verbatim>\<open>enabled\<close> and the string under
  \<^verbatim>\<open>email\<close>, each absent or present.
\<close>

record check_info =
  enabled :: "json option"
  email :: "string option"

text \<open>
  The IMAP connection: what the \<open>n\<close>-th \<^verbatim>\<open>imap.uid("search", None, query)\<close> answers (the
  status and the ids of \<^verbatim>\<open>data[0].split()\<close>, or an exception), and the queries sent so
  far.
\<close>

record mailbox =
  imap_src :: "nat \<Rightarrow> string \<Rightarrow> (string \<times> string list) outcome"
  queries :: "string list"

definition fetch_emails :: "mailbox \<Rightarrow> string \<Rightarrow> string list \<times> mailbox" where
  "fetch_emails imap query =
     (let imap' = imap\<lparr>queries := queries imap @ [query]\<rparr>
      in case imap_src imap (length (queries imap)) query of
           Raises e \<Rightarrow> ([], imap')
         | Returns (res, uids) \<Rightarrow> (if res = ''OK'' then uids else [], imap'))"

definition from_query :: "string \<Rightarrow> string" where
  \<open>from_query addr = ''(FROM "'' @ addr @ ''")''\<close>

text \<open>
  The loop over \<^verbatim>\<open>custom_checks.items()\<close>. \<^verbatim>\<open>check_info.get("enabled", False)\<close> is
  tested for truth; \<^verbatim>\<open>check_info["email"]\<close> raises \<^verbatim>\<open>KeyError\<close> when the key is missing.
\<close>

fun custom_checks_loop ::
  "(string \<times> check_info) list \<Rightarrow> mailbox \<Rightarrow> (string \<rightharpoonup> nat)
     \<Rightarrow> error + ((string \<rightharpoonup> nat) \<times> mailbox)" where
  "custom_checks_loop [] imap counts = Inr (counts, imap)"
| "custom_checks_loop ((check_name, info) # rest) imap counts =
     (if py_lower check_name = ''example_check'' then custom_checks_loop rest imap counts
      else if truthy (case enabled info of None \<Rightarrow> JBool False | Some v \<Rightarrow> v) then
        (case email info of
           None \<Rightarrow> Inl (KeyError ''email'')
         | Some addr \<Rightarrow>
             (case fetch_emails imap (from_query addr) of
                (custom_data, imap') \<Rightarrow>
                  custom_checks_loop rest imap' (counts(check_name \<mapsto> length custom_data))))
      else custom_checks_loop rest imap counts)"

section \<open>\<^verbatim>\<open>check_single\<close> of \<^verbatim>\<open>kroger_checker_browser.py\<close>\<close>

text \<open>
  The browser checker keeps the same two lists; its result dict has no \<^verbatim>\<open>proxy\<close> key.
  What \<^verbatim>\<open>check_credentials\<close> returned from the browser session is the parameter
  \<open>is_valid\<close>.
\<close>

record browser_result =
  bres_email :: string
  bres_password :: string
  bres_valid :: bool

record browser_checker =
  browser_valid_creds :: "browser_result list"
  browser_invalid_creds :: "browser_result list"

definition browser_check_single ::
  "bool \<Rightarrow> string \<Rightarrow> string \<Rightarrow> browser_checker \<Rightarrow> browser_result \<times> browser_checker" where
  "browser_check_single is_valid em pw s =
     (let result = \<lparr>bres_email = em, bres_password = pw, bres_valid = is_valid\<rparr>
      in if is_valid then (result, s\<lparr>browser_valid_creds := browser_valid_creds s @ [result]\<rparr>)
         else (result, s\<lparr>browser_invalid_creds := browser_invalid_creds s @ [result]\<rparr>))"

text \<open>Successive calls, each with what \<^verbatim>\<open>check_credentials\<close> returned for it.\<close>

fun browser_check_each ::
  "(bool \<times> string \<times> string) list \<Rightarrow> browser_checker
     \<Rightarrow> browser_result list \<times> browser_checker" where
  "browser_check_each [] s = ([], s)"
| "browser_check_each ((is_valid, em, pw) # rest) s =
     (case browser_check_single is_valid em pw s of
        (r, s1) \<Rightarrow> (case browser_check_each rest s1 of (rs, s2) \<Rightarrow> (r # rs, s2)))"

text \<open>\<^verbatim>\<open>__init__\<close> of the browser checker.\<close>

definition browser_init :: browser_checker where
  "browser_init = \<lparr>browser_valid_creds = [], browser_invalid_creds = []\<rparr>"

section \<open>Vocabulary of the specification\<close>

text \<open>What a call added to the trace.\<close>

definition new_events :: "world \<Rightarrow> world \<Rightarrow> event list" where
  "new_events w w' = drop (length (trace w)) (trace w')"

text \<open>
  The source keeps no attempt trail. An attempt is an iteration of the retry loop, and each
  iteration begins by requesting the sign-in page, so the attempts of a call are the
  requests for that page in what the call added to the trace.
\<close>

definition is_attempt :: "event \<Rightarrow> bool" where
  "is_attempt ev = (case ev of Exchange req r \<Rightarrow> req = GET signin_url | Sleep d \<Rightarrow> False)"

definition attempts :: "event list \<Rightarrow> nat" where
  "attempts evs = length (filter is_attempt evs)"

text \<open>The answer to a login request, when the event is one that was answered.\<close>

definition login_answer :: "event \<Rightarrow> response option" where
  "login_answer ev =
     (case ev of
        Exchange (POST url payload) (Returns r) \<Rightarrow> if url = login_url then Some r else None
      | _ \<Rightarrow> None)"

definition answer200 :: "event \<Rightarrow> bool" where
  "answer200 ev = (case login_answer ev of Some r \<Rightarrow> status_code r = 200 | None \<Rightarrow> False)"

text \<open>The token a 200 answer carries: the \<^verbatim>\<open>token\<close> member of a JSON object, else nothing.\<close>

definition token_of :: "response \<Rightarrow> json" where
  "token_of r = (case json_body r of Some (JObj kvs) \<Rightarrow> dict_get kvs ''token'' | _ \<Rightarrow> JNull)"

text \<open>The success signal: a 200 answer to the login request whose token is truthy.\<close>

definition success_signal :: "event \<Rightarrow> bool" where
  "success_signal ev =
     (case login_answer ev of Some r \<Rightarrow> status_code r = 200 \<and> truthy (token_of r) | None \<Rightarrow> False)"

text \<open>Rejected: a well-formed 200 answer (a JSON object) without a truthy token.\<close>

definition rejected :: "event \<Rightarrow> bool" where
  "rejected ev =
     (case login_answer ev of
        Some r \<Rightarrow>
          status_code r = 200 \<and>
          (case json_body r of Some (JObj kvs) \<Rightarrow> \<not> truthy (dict_get kvs ''token'') | _ \<Rightarrow> False)
      | None \<Rightarrow> False)"

text \<open>A proxy fetch fails when it raises or gives nothing; a proxy test when it raises or is not 200.\<close>

definition fetch_fails :: "string option outcome \<Rightarrow> bool" where
  "fetch_fails x = (case x of Raises e \<Rightarrow> True | Returns None \<Rightarrow> True | Returns (Some p) \<Rightarrow> p = [])"

definition test_fails :: "response outcome \<Rightarrow> bool" where
  "test_fails x = (case x of Raises e \<Rightarrow> True | Returns r \<Rightarrow> status_code r \<noteq> 200)"

text \<open>Proxy acquisition always fails: whenever a proxy is fetched, the fetch or its test fails.\<close>

definition never_acquires :: "world \<Rightarrow> bool" where
  "never_acquires w =
     (\<forall>n. fetch_fails (proxy_src w n) \<or> (\<forall>m px. test_fails (http_src w m px (GET home_url))))"


text \<open>Every attempt is rate limited: the sign-in page is served and the login answers 403 or 429.\<close>

definition always_rate_limited :: "world \<Rightarrow> bool" where
  "always_rate_limited w =
     (\<forall>n px. (\<exists>page. http_src w n px (GET signin_url) = Returns page) \<and>
              (\<forall>payload. \<exists>r. http_src w n px (POST login_url payload) = Returns r \<and>
                              (status_code r = 403 \<or> status_code r = 429)))"


text \<open>The seconds slept in a piece of trace.\<close>

fun total_sleep :: "event list \<Rightarrow> real" where
  "total_sleep [] = 0"
| "total_sleep (Sleep d # evs) = d + total_sleep evs"
| "total_sleep (Exchange req r # evs) = total_sleep evs"

text \<open>The events of a proxy rotation: test requests to the home page and one-second sleeps.\<close>

definition rot_event :: "event \<Rightarrow> bool" where
  "rot_event ev = (case ev of Exchange req r \<Rightarrow> req = GET home_url | Sleep d \<Rightarrow> d = 1)"

definition same_srcs :: "world \<Rightarrow> world \<Rightarrow> bool" where
  "same_srcs w w' =
     (proxy_src w' = proxy_src w \<and> http_src w' = http_src w \<and> random_src w' = random_src w)"

text \<open>
  How the events of a call of \<^verbatim>\<open>_get_auth_token\<close> relate to the token it returns: no login
  request was answered 200 and the token is \<^verbatim>\<open>None\<close>, or the last event is the one 200
  answer and the token is the one it carries.
\<close>

definition settled :: "json \<Rightarrow> event list \<Rightarrow> bool" where
  "settled t evs =
     ((list_all (\<lambda>ev. \<not> answer200 ev) evs \<and> t = JNull) \<or>
      (\<exists>pre payload resp.
          evs = pre @ [Exchange (POST login_url payload) (Returns resp)] \<and>
          status_code resp = 200 \<and> list_all (\<lambda>ev. \<not> answer200 ev) pre \<and> t = token_of resp))"

text \<open>
  The first attempt of a call that starts in this state and world is Rejected: the sign-in
  page is served and the login request is answered 200 with a JSON object that has no truthy
  token.
\<close>

definition first_attempt_rejected :: "checker \<Rightarrow> world \<Rightarrow> bool" where
  "first_attempt_rejected s w =
     ((\<exists>page. http_src w (http_calls w) (session_proxies s) (GET signin_url) = Returns page) \<and>
      (\<forall>payload. \<exists>resp kvs.
          http_src w (Suc (http_calls w)) (session_proxies s) (POST login_url payload)
            = Returns resp \<and>
          status_code resp = 200 \<and> json_body resp = Some (JObj kvs) \<and>
          \<not> truthy (dict_get kvs ''token'')))"

text \<open>A login request answered 403 or 429, and a request that raised a request error.\<close>

definition rate_limited :: "event \<Rightarrow> bool" where
  "rate_limited ev =
     (case login_answer ev of Some r \<Rightarrow> status_code r = 403 \<or> status_code r = 429 | None \<Rightarrow> False)"

definition request_error :: "event \<Rightarrow> bool" where
  "request_error ev =
     (case ev of Exchange req (Raises RequestException) \<Rightarrow> True | _ \<Rightarrow> False)"

text \<open>The requests of the attempt itself: for the sign-in page and for the login.\<close>

definition attempt_event :: "event \<Rightarrow> bool" where
  "attempt_event ev =
     (case ev of
        Exchange (GET url) r \<Rightarrow> url = signin_url
      | Exchange (POST url payload) r \<Rightarrow> url = login_url
      | Sleep d \<Rightarrow> False)"

text \<open>A credential dict with both keys.\<close>

definition is_pair :: "(string \<rightharpoonup> string) \<Rightarrow> bool" where
  "is_pair cred = (cred ''email'' \<noteq> None \<and> cred ''password'' \<noteq> None)"

text \<open>Group 1 of the leftmost match of a pattern, when the pattern matches.\<close>

definition capture :: "atom list \<Rightarrow> string \<Rightarrow> string option" where
  "capture p html = (case re_search p html of Some (Some token) \<Rightarrow> Some token | _ \<Rightarrow> None)"

text \<open>The reserved name, and an entry whose \<^verbatim>\<open>enabled\<close> value is truthy.\<close>

definition is_reserved :: "string \<Rightarrow> bool" where
  "is_reserved check_name = (py_lower check_name = ''example_check'')"

definition is_enabled :: "check_info \<Rightarrow> bool" where
  "is_enabled info = truthy (case enabled info of None \<Rightarrow> JBool False | Some v \<Rightarrow> v)"

text \<open>No match of the pattern starts inside \<open>pre\<close>, in the text \<open>pre @ s\<close>.\<close>

definition no_match_inside :: "atom list \<Rightarrow> string \<Rightarrow> string \<Rightarrow> bool" where
  "no_match_inside p pre s = (\<forall>i<length pre. match_here p (drop i (pre @ s)) None = None)"

text \<open>No occurrence of the marker \<^verbatim>\<open>_csrf":"\<close> starts inside \<open>pre\<close>, in the text \<open>pre @ s\<close>.\<close>

definition marker_free :: "string \<Rightarrow> string \<Rightarrow> bool" where
  "marker_free pre s =
     (\<forall>i<length pre. take (length csrf_marker) (drop i (pre @ s)) \<noteq> csrf_marker)"

text \<open>
  The calls of \<^verbatim>\<open>check_single\<close> that a batch over credential pairs makes, one for each pair
  in turn: the state and world in which the pair is checked, and what the call returns. The
  next pair is checked in the state and world that the pacing after the call leaves.
\<close>

fun pair_calls ::
  "(string \<rightharpoonup> string) list \<Rightarrow> checker \<Rightarrow> world
     \<Rightarrow> ((checker \<times> world) \<times> (result \<times> checker \<times> world)) list" where
  "pair_calls [] s w = []"
| "pair_calls (cred # rest) s w =
     (case check_single (the (cred ''email'')) (the (cred ''password'')) s w of
        (r, s1, w1) \<Rightarrow>
          ((s, w), (r, s1, w1)) # (case pace s1 w1 of (s2, w2) \<Rightarrow> pair_calls rest s2 w2))"

section \<open>Stub worlds\<close>

text \<open>Concrete collaborators and checkers on which the theorems below are instantiated.\<close>

definition stub_world ::
  "(nat \<Rightarrow> string option outcome) \<Rightarrow>
   (nat \<Rightarrow> (string \<times> string) list \<Rightarrow> request \<Rightarrow> response outcome) \<Rightarrow> world" where
  "stub_world ps hs =
     \<lparr>proxy_src = ps, http_src = hs, random_src = (\<lambda>n. 0), proxy_calls = 0, http_calls = 0,
      random_calls = 0, trace = []\<rparr>"

definition answer :: "int \<Rightarrow> json option \<Rightarrow> response" where
  "answer code body = \<lparr>status_code = code, text_of = [], json_body = body\<rparr>"

definition fresh :: "bool \<Rightarrow> checker" where
  "fresh up =
     \<lparr>use_proxy = up, proxy = None, session_proxies = [], valid_creds = [], invalid_creds = []\<rparr>"

text \<open>No proxy to be had, and every request fails with a request error.\<close>

definition failing_world :: world where
  "failing_world = stub_world (\<lambda>n. Raises OtherException) (\<lambda>n px req. Raises RequestException)"

text \<open>No proxy to be had; every request is answered 200 with a token.\<close>

definition accepting_world :: world where
  "accepting_world =
     stub_world (\<lambda>n. Raises OtherException)
       (\<lambda>n px req. Returns (answer 200 (Some (JObj [(''token'', JStr ''t0k3n'')]))))"

text \<open>No proxy to be had; every request is answered 200 with an empty token.\<close>

definition rejecting_world :: world where
  "rejecting_world =
     stub_world (\<lambda>n. Raises OtherException)
       (\<lambda>n px req. Returns (answer 200 (Some (JObj [(''token'', JStr '''')]))))"

text \<open>No proxy to be had; every request is answered 429.\<close>

definition limiting_world :: world where
  "limiting_world =
     stub_world (\<lambda>n. Raises OtherException) (\<lambda>n px req. Returns (answer 429 None))"

text \<open>
  No proxy to be had; the first two requests (one attempt) are answered 429, the later ones
  200 with a JSON object without token.
\<close>

definition limit_then_reject_world :: world where
  "limit_then_reject_world =
     stub_world (\<lambda>n. Raises OtherException)
       (\<lambda>n px req. Returns (if n < 2 then answer 429 None else answer 200 (Some (JObj []))))"



text \<open>
  No proxy to be had; the sign-in page is served, and a login is answered 200 with a token
  for \<^verbatim>\<open>a@x.com\<close> and 200 with a JSON object without token for anyone else.
\<close>

definition scenario_world :: world where
  "scenario_world =
     stub_world (\<lambda>n. Raises OtherException)
       (\<lambda>n px req.
          case req of
            GET url \<Rightarrow> Returns (answer 200 None)
          | POST url payload \<Rightarrow>
              if map_of payload ''email'' = Some ''a@x.com''
              then Returns (answer 200 (Some (JObj [(''token'', JStr ''t0k3n'')])))
              else Returns (answer 200 (Some (JObj []))))"

text \<open>A credential dict \<^verbatim>\<open>{'email': em, 'password': pw}\<close>.\<close>

definition cred :: "string \<Rightarrow> string \<Rightarrow> (string \<rightharpoonup> string)" where
  "cred em pw = [''email'' \<mapsto> em, ''password'' \<mapsto> pw]"

text \<open>The meta tag of the specification's example, and one whose token is too short.\<close>

definition meta_tag :: string where
  \<open>meta_tag = ''<meta name="csrf-token" content="abcdef0123456789">''\<close>

definition short_meta_tag :: string where
  \<open>short_meta_tag = ''<meta name="csrf-token" content="x">''\<close>

text \<open>An IMAP connection on which every search finds two messages.\<close>

definition stub_mailbox :: mailbox where
  "stub_mailbox = \<lparr>imap_src = (\<lambda>n query. Returns (''OK'', [''1'', ''2''])), queries = []\<rparr>"

text \<open>Custom checks: the reserved name, enabled, and one other enabled check.\<close>

definition stub_checks :: "(string \<times> check_info) list" where
  "stub_checks =
     [(''Example_Check'', \<lparr>enabled = Some (JBool True), email = Some ''noreply@example.com''\<rparr>),
      (''github'', \<lparr>enabled = Some (JBool True), email = Some ''noreply@github.com''\<rparr>)]"

section \<open>Properties of proxy rotation\<close>

lemma same_srcs_refl [simp]: "same_srcs w w"
  by (simp add: same_srcs_def)

lemma same_srcs_trans: "same_srcs w w1 \<Longrightarrow> same_srcs w1 w2 \<Longrightarrow> same_srcs w w2"
  by (simp add: same_srcs_def)

lemma rotate_once_world:
  assumes "rotate_once s w = (b, s', w')"
  shows "same_srcs w w' \<and> random_calls w' = random_calls w \<and> proxy_calls w' = Suc (proxy_calls w)
         \<and> (\<exists>evs. trace w' = trace w @ evs \<and> list_all rot_event evs)"
  using assms
  by (auto simp: rotate_once_def free_proxy_get_def session_request_def sleep_def same_srcs_def
      rot_event_def Let_def split: outcome.splits option.splits if_splits prod.splits)

lemma rotate_once_checker:
  assumes "rotate_once s w = (b, s', w')"
  shows "use_proxy s' = use_proxy s \<and> valid_creds s' = valid_creds s \<and> invalid_creds s' = invalid_creds s"
  using assms
  by (auto simp: rotate_once_def free_proxy_get_def session_request_def sleep_def
      Let_def split: outcome.splits option.splits if_splits prod.splits)

lemma never_acquires_cong: "same_srcs w w' \<Longrightarrow> never_acquires w' = never_acquires w"
  by (simp add: same_srcs_def never_acquires_def)


lemma rotate_once_never:
  assumes "never_acquires w" and "rotate_once s w = (b, s', w')"
  shows "\<not> b"
  using assms
  by (auto simp: rotate_once_def free_proxy_get_def session_request_def sleep_def never_acquires_def
      fetch_fails_def test_fails_def
      Let_def split: outcome.splits option.splits if_splits prod.splits)


lemma rotate_loop_world:
  assumes "rotate_loop xs s w = (b, s', w')"
  shows "same_srcs w w' \<and> random_calls w' = random_calls w
         \<and> proxy_calls w' \<le> proxy_calls w + length xs
         \<and> (\<not> b \<longrightarrow> proxy_calls w' = proxy_calls w + length xs)
         \<and> (\<exists>evs. trace w' = trace w @ evs \<and> list_all rot_event evs)"
  using assms
proof (induction xs arbitrary: s w)
  case Nil
  then show ?case by simp
next
  case (Cons x xs)
  obtain b1 s1 w1 where r1: "rotate_once s w = (b1, s1, w1)"
    by (cases "rotate_once s w") auto
  note f1 = rotate_once_world [OF r1]
  show ?case
  proof (cases b1)
    case True
    with Cons.prems r1 have "b = True" "w' = w1" by auto
    with f1 show ?thesis by auto
  next
    case False
    with Cons.prems r1 have "rotate_loop xs s1 w1 = (b, s', w')" by auto
    from Cons.IH [OF this] f1 show ?thesis
      by (auto simp: same_srcs_def)
  qed
qed

lemma rotate_loop_checker:
  assumes "rotate_loop xs s w = (b, s', w')"
  shows "use_proxy s' = use_proxy s \<and> valid_creds s' = valid_creds s \<and> invalid_creds s' = invalid_creds s"
  using assms
proof (induction xs arbitrary: s w)
  case Nil
  then show ?case by simp
next
  case (Cons x xs)
  obtain b1 s1 w1 where r1: "rotate_once s w = (b1, s1, w1)"
    by (cases "rotate_once s w") auto
  note f1 = rotate_once_checker [OF r1]
  show ?case
  proof (cases b1)
    case True
    with Cons.prems r1 have "s' = s1" by auto
    with f1 show ?thesis by simp
  next
    case False
    with Cons.prems r1 have "rotate_loop xs s1 w1 = (b, s', w')" by auto
    from Cons.IH [OF this] f1 show ?thesis by simp
  qed
qed

lemma rotate_loop_never:
  assumes "never_acquires w" and "rotate_loop xs s w = (b, s', w')"
  shows "\<not> b"
  using assms
proof (induction xs arbitrary: s w)
  case Nil
  then show ?case by simp
next
  case (Cons x xs)
  obtain b1 s1 w1 where r1: "rotate_once s w = (b1, s1, w1)"
    by (cases "rotate_once s w") auto
  from rotate_once_never [OF Cons.prems(1) r1] have nb: "\<not> b1" .
  from rotate_once_world [OF r1] Cons.prems(1) have "never_acquires w1"
    using never_acquires_cong by blast
  moreover from Cons.prems(2) r1 nb have "rotate_loop xs s1 w1 = (b, s', w')" by auto
  ultimately show ?case by (rule Cons.IH)
qed

lemma rotate_proxy_world:
  assumes "rotate_proxy strict s w = (ok, s', w')"
  shows "same_srcs w w' \<and> random_calls w' = random_calls w
         \<and> (\<exists>evs. trace w' = trace w @ evs \<and> list_all rot_event evs)"
proof -
  obtain b s1 w1 where l: "rotate_loop [0..<(if strict then 5 else 3)] s w = (b, s1, w1)"
    by (cases "rotate_loop [0..<(if strict then 5 else 3)] s w") auto
  from assms l have "w' = w1"
    by (auto simp: rotate_proxy_def Let_def split: if_splits bool.splits)
  with rotate_loop_world [OF l] show ?thesis by simp
qed

lemma rotate_proxy_checker:
  assumes "rotate_proxy strict s w = (ok, s', w')"
  shows "use_proxy s' = use_proxy s \<and> valid_creds s' = valid_creds s \<and> invalid_creds s' = invalid_creds s"
proof -
  obtain b s1 w1 where l: "rotate_loop [0..<(if strict then 5 else 3)] s w = (b, s1, w1)"
    by (cases "rotate_loop [0..<(if strict then 5 else 3)] s w") auto
  from assms l have "s' = s1 \<or> s' = s1\<lparr>proxy := None, session_proxies := []\<rparr>"
    by (auto simp: rotate_proxy_def Let_def split: if_splits bool.splits)
  with rotate_loop_checker [OF l] show ?thesis by auto
qed


lemma rotate_proxy_never:
  assumes "never_acquires w" and "rotate_proxy True s w = (ok, s', w')"
  shows "\<not> ok"
proof -
  obtain b s1 w1 where l: "rotate_loop [0..<5] s w = (b, s1, w1)"
    by (cases "rotate_loop [0..<5] s w") auto
  from rotate_loop_never [OF assms(1) l] have "\<not> b" .
  with assms(2) l show ?thesis
    by (auto simp: rotate_proxy_def Let_def split: bool.splits)
qed


section \<open>One attempt of the retry loop\<close>

lemma rot_event_quiet: "rot_event ev \<Longrightarrow> \<not> answer200 ev \<and> \<not> is_attempt ev"
  by (auto simp: rot_event_def answer200_def login_answer_def is_attempt_def home_url_def
      signin_url_def split: event.splits)

lemma rot_events_quiet:
  "list_all rot_event evs \<Longrightarrow> list_all (\<lambda>ev. \<not> answer200 ev) evs \<and> attempts evs = 0"
  by (induction evs) (auto simp: attempts_def dest: rot_event_quiet)

lemma attempts_append: "attempts (xs @ ys) = attempts xs + attempts ys"
  by (simp add: attempts_def)

lemma settled_none: "list_all (\<lambda>ev. \<not> answer200 ev) evs \<Longrightarrow> settled JNull evs"
  by (simp add: settled_def)

lemma settled_200:
  "status_code resp = 200 \<Longrightarrow> list_all (\<lambda>ev. \<not> answer200 ev) pre \<Longrightarrow>
   settled (token_of resp) (pre @ [Exchange (POST login_url payload) (Returns resp)])"
  by (auto simp: settled_def)

lemma on_error_world:
  assumes "on_error mx a e s w = (st, s', w')"
  shows "same_srcs w w' \<and> random_calls w' = random_calls w \<and>
         use_proxy s' = use_proxy s \<and> valid_creds s' = valid_creds s \<and>
         invalid_creds s' = invalid_creds s \<and>
         (st = Continue \<or> st = Return JNull) \<and>
         (\<exists>evs. trace w' = trace w @ evs \<and> list_all (\<lambda>ev. \<not> answer200 ev) evs \<and> attempts evs = 0)"
proof (cases "e = RequestException \<and> a < mx - 1")
  case False
  with assms have "st = Return JNull" "s' = s" "w' = w"
    by (auto simp: on_error_def split: exn.splits)
  then show ?thesis by (simp add: attempts_def)
next
  case True
  obtain ok s1 w1 where r: "rotate_proxy (use_proxy s) s w = (ok, s1, w1)"
    by (cases "rotate_proxy (use_proxy s) s w") auto
  from rotate_proxy_world [OF r] obtain evs where
    w1: "same_srcs w w1" "random_calls w1 = random_calls w" "trace w1 = trace w @ evs"
    "list_all rot_event evs" by blast
  note c1 = rotate_proxy_checker [OF r]
  from rot_events_quiet [OF w1(4)] have q: "list_all (\<lambda>ev. \<not> answer200 ev) evs" "attempts evs = 0"
    by simp_all
  show ?thesis
  proof (cases ok)
    case False
    with assms True r have "st = Return JNull" "s' = s1" "w' = w1"
      by (auto simp: on_error_def)
    with w1 c1 q show ?thesis by auto
  next
    case True
    with assms \<open>e = RequestException \<and> a < mx - 1\<close> r
    have "st = Continue" "s' = s1" "w' = sleep 2 w1"
      by (auto simp: on_error_def)
    moreover have "list_all (\<lambda>ev. \<not> answer200 ev) (evs @ [Sleep 2])" "attempts (evs @ [Sleep 2]) = 0"
      using q by (simp_all add: attempts_def answer200_def login_answer_def is_attempt_def)
    ultimately show ?thesis using w1 c1
      by (auto simp: sleep_def same_srcs_def)
  qed
qed

lemma attempt_once_world:
  assumes "attempt_once mx a em pw s w = (st, s', w')"
  shows "same_srcs w w' \<and> random_calls w' = random_calls w \<and>
         use_proxy s' = use_proxy s \<and> valid_creds s' = valid_creds s \<and>
         invalid_creds s' = invalid_creds s \<and>
         (\<exists>evs. trace w' = trace w @ evs \<and> attempts evs = 1 \<and>
                (case st of Continue \<Rightarrow> list_all (\<lambda>ev. \<not> answer200 ev) evs
                          | Return t \<Rightarrow> settled t evs))"
proof -
  define g where "g = http_src w (http_calls w) (session_proxies s) (GET signin_url)"
  define G where "G = Exchange (GET signin_url) g"
  define w1 where "w1 = w\<lparr>http_calls := Suc (http_calls w), trace := trace w @ [G]\<rparr>"
  have sr1: "session_request (session_proxies s) (GET signin_url) w = (g, w1)"
    by (simp add: session_request_def g_def w1_def G_def Let_def)
  have w1: "same_srcs w w1" "random_calls w1 = random_calls w" "trace w1 = trace w @ [G]"
    by (simp_all add: w1_def same_srcs_def)
  have G: "\<not> answer200 G" "attempts [G] = 1"
    by (simp_all add: G_def answer200_def login_answer_def attempts_def is_attempt_def)
  have finish: ?thesis
    if oe: "on_error mx a e s w0 = (st, s', w')"
      and w0: "same_srcs w w0" "random_calls w0 = random_calls w" "trace w0 = trace w @ evs0"
      "list_all (\<lambda>ev. \<not> answer200 ev) evs0" "attempts evs0 = 1"
    for e w0 evs0
  proof -
    from on_error_world [OF oe] obtain evs where
      f: "same_srcs w0 w'" "random_calls w' = random_calls w0" "use_proxy s' = use_proxy s"
      "valid_creds s' = valid_creds s" "invalid_creds s' = invalid_creds s"
      "st = Continue \<or> st = Return JNull" "trace w' = trace w0 @ evs"
      "list_all (\<lambda>ev. \<not> answer200 ev) evs" "attempts evs = 0"
      by blast
    have q: "list_all (\<lambda>ev. \<not> answer200 ev) (evs0 @ evs)" "attempts (evs0 @ evs) = 1"
      using w0 f by (simp_all add: attempts_append)
    have "trace w' = trace w @ (evs0 @ evs)" using w0 f by simp
    moreover have "case st of Continue \<Rightarrow> list_all (\<lambda>ev. \<not> answer200 ev) (evs0 @ evs)
                    | Return t \<Rightarrow> settled t (evs0 @ evs)"
      using f(6) q(1) by (auto simp: settled_def)
    ultimately have ex: "\<exists>evs. trace w' = trace w @ evs \<and> attempts evs = 1 \<and>
                (case st of Continue \<Rightarrow> list_all (\<lambda>ev. \<not> answer200 ev) evs
                          | Return t \<Rightarrow> settled t evs)"
      using q(2) by (intro exI [of _ "evs0 @ evs"] conjI)
    have "same_srcs w w'" using w0(1) f(1) by (rule same_srcs_trans)
    with ex f(2-5) w0(2) show ?thesis by simp
  qed
  show ?thesis
  proof (cases g)
    case (Raises e)
    with assms sr1 have "on_error mx a e s w1 = (st, s', w')"
      by (simp add: attempt_once_def)
    from finish [OF this w1] G show ?thesis by simp
  next
    case (Returns login_page)
    define payload where
      "payload = [(''email'', em), (''password'', pw), (''_csrf'', extract_csrf (text_of login_page))]"
    define p where "p = http_src w1 (http_calls w1) (session_proxies s) (POST login_url payload)"
    define P where "P = Exchange (POST login_url payload) p"
    define w2 where "w2 = w1\<lparr>http_calls := Suc (http_calls w1), trace := trace w1 @ [P]\<rparr>"
    have sr2: "session_request (session_proxies s) (POST login_url payload) w1 = (p, w2)"
      by (simp add: session_request_def p_def w2_def P_def Let_def)
    have w2: "same_srcs w w2" "random_calls w2 = random_calls w" "trace w2 = trace w @ [G, P]"
      using w1 by (simp_all add: w2_def same_srcs_def)
    have GP: "attempts [G, P] = 1"
      by (simp add: attempts_def P_def G_def is_attempt_def)
    show ?thesis
    proof (cases p)
      case (Raises e)
      with assms sr1 sr2 Returns have oe: "on_error mx a e s w2 = (st, s', w')"
        by (simp add: attempt_once_def payload_def Let_def)
      have "\<not> answer200 P" using Raises by (simp add: P_def answer200_def login_answer_def)
      with finish [OF oe w2] G GP show ?thesis by simp
    next
      case (Returns resp)
      note p = this
      have P200: "answer200 P = (status_code resp = 200)"
        using p by (simp add: P_def answer200_def login_answer_def)
      consider (ok) "status_code resp = 200"
        | (limited) "status_code resp \<noteq> 200" "status_code resp = 403 \<or> status_code resp = 429"
        | (other) "status_code resp \<noteq> 200" "status_code resp \<noteq> 403" "status_code resp \<noteq> 429"
        by blast
      then show ?thesis
      proof cases
        case ok
        with assms sr1 sr2 \<open>g = Returns login_page\<close> p
        have "st = Return (token_of resp)" "s' = s" "w' = w2"
          by (auto simp: attempt_once_def payload_def Let_def token_of_def on_error_def
              split: option.splits json.splits)
        moreover have "settled (token_of resp) ([G] @ [P])"
          unfolding P_def p using ok G by (intro settled_200) simp_all
        ultimately show ?thesis using w2 GP by auto
      next
        case limited
        obtain b s1 w3 where r: "rotate_proxy (use_proxy s) s w2 = (b, s1, w3)"
          by (cases "rotate_proxy (use_proxy s) s w2") auto
        from rotate_proxy_world [OF r] obtain evs where
          w3: "same_srcs w2 w3" "random_calls w3 = random_calls w2" "trace w3 = trace w2 @ evs"
          "list_all rot_event evs" by blast
        note c1 = rotate_proxy_checker [OF r]
        from rot_events_quiet [OF w3(4)] have q: "list_all (\<lambda>ev. \<not> answer200 ev) evs" "attempts evs = 0"
          by simp_all
        from assms sr1 sr2 \<open>g = Returns login_page\<close> p limited r
        have st: "st = (if b then Continue else Return JNull)" "s' = s1" "w' = w3"
          by (auto simp: attempt_once_def payload_def Let_def split: bool.splits)
        have q2: "list_all (\<lambda>ev. \<not> answer200 ev) ([G, P] @ evs)" "attempts ([G, P] @ evs) = 1"
          using q G GP P200 limited by (simp_all add: attempts_append del: append.simps)
        have "trace w' = trace w @ ([G, P] @ evs)" using st w3 w2 by simp
        moreover have "case st of Continue \<Rightarrow> list_all (\<lambda>ev. \<not> answer200 ev) ([G, P] @ evs)
                        | Return t \<Rightarrow> settled t ([G, P] @ evs)"
          using st(1) q2(1) by (auto simp: settled_def)
        ultimately have ex: "\<exists>evs. trace w' = trace w @ evs \<and> attempts evs = 1 \<and>
                (case st of Continue \<Rightarrow> list_all (\<lambda>ev. \<not> answer200 ev) evs
                          | Return t \<Rightarrow> settled t evs)"
          using q2(2) by (intro exI [of _ "[G, P] @ evs"] conjI)
        have "same_srcs w w'" using w2(1) w3(1) st(3) same_srcs_trans by blast
        with ex st c1 w3(2) w2(2) show ?thesis by simp
      next
        case other
        with assms sr1 sr2 \<open>g = Returns login_page\<close> p
        have "st = Return JNull" "s' = s" "w' = w2"
          by (auto simp: attempt_once_def payload_def Let_def)
        moreover have "settled JNull [G, P]"
          using G P200 other by (intro settled_none) simp
        ultimately show ?thesis using w2 GP by auto
      qed
    qed
  qed
qed

section \<open>The retry loop and the token it returns\<close>

lemma settled_prepend:
  "list_all (\<lambda>ev. \<not> answer200 ev) evs1 \<Longrightarrow> settled t evs2 \<Longrightarrow> settled t (evs1 @ evs2)"
  unfolding settled_def
  by (elim disjE conjE exE) (simp, metis append.assoc list_all_append)

lemma success_is_200: "success_signal ev \<Longrightarrow> answer200 ev"
  by (simp add: success_signal_def answer200_def split: option.splits)

lemma rejected_is_200: "rejected ev \<Longrightarrow> answer200 ev"
  by (simp add: rejected_def answer200_def split: option.splits)

lemma no_200_no_success:
  "list_all (\<lambda>ev. \<not> answer200 ev) evs \<Longrightarrow> ev \<in> set evs \<Longrightarrow> \<not> answer200 ev"
  by (simp add: list_all_iff)

lemma settled_truthy:
  assumes "settled t evs"
  shows "truthy t = (\<exists>ev\<in>set evs. success_signal ev)"
  using assms unfolding settled_def
proof (elim disjE conjE exE)
  assume a: "list_all (\<lambda>ev. \<not> answer200 ev) evs" "t = JNull"
  then have "\<not> (\<exists>ev\<in>set evs. success_signal ev)"
    using success_is_200 no_200_no_success by blast
  with a show ?thesis by simp
next
  fix pre payload resp
  assume a: "evs = pre @ [Exchange (POST login_url payload) (Returns resp)]"
    "status_code resp = 200" "list_all (\<lambda>ev. \<not> answer200 ev) pre" "t = token_of resp"
  have "\<not> (\<exists>ev\<in>set pre. success_signal ev)"
    using a(3) success_is_200 no_200_no_success by blast
  moreover have "success_signal (Exchange (POST login_url payload) (Returns resp)) = truthy t"
    using a(2,4) by (simp add: success_signal_def login_answer_def)
  ultimately show ?thesis using a(1) by auto
qed

text \<open>A 200 answer in the events of a settled call is their last event and decides the token.\<close>

lemma settled_200_last:
  assumes "settled t evs" and "ev \<in> set evs" and "login_answer ev = Some resp"
    and "status_code resp = 200"
  shows "evs \<noteq> [] \<and> last evs = ev \<and> t = token_of resp"
  using assms(1) unfolding settled_def
proof (elim disjE conjE exE)
  assume "list_all (\<lambda>ev. \<not> answer200 ev) evs" "t = JNull"
  with assms(2-4) show ?thesis
    using no_200_no_success [of evs ev] by (simp add: answer200_def)
next
  fix pre payload resp'
  assume a: "evs = pre @ [Exchange (POST login_url payload) (Returns resp')]"
    "status_code resp' = 200" "list_all (\<lambda>ev. \<not> answer200 ev) pre" "t = token_of resp'"
  have "ev \<notin> set pre"
    using a(3) assms(3,4) no_200_no_success [of pre ev] by (auto simp: answer200_def)
  with assms(2) a(1) have "ev = Exchange (POST login_url payload) (Returns resp')" by simp
  with assms(3) have "resp' = resp" by (simp add: login_answer_def)
  with a \<open>ev = _\<close> show ?thesis by simp
qed

lemma auth_loop_world:
  assumes "auth_loop mx as em pw s w = (t, s', w')"
  shows "same_srcs w w' \<and> random_calls w' = random_calls w \<and>
         use_proxy s' = use_proxy s \<and> valid_creds s' = valid_creds s \<and>
         invalid_creds s' = invalid_creds s \<and>
         (\<exists>evs. trace w' = trace w @ evs \<and> attempts evs \<le> length as \<and> settled t evs)"
  using assms
proof (induction as arbitrary: s w)
  case Nil
  then have "t = JNull" "s' = s" "w' = w" by simp_all
  then show ?case by (simp add: settled_def attempts_def)
next
  case (Cons a as)
  obtain st s1 w1 where a1: "attempt_once mx a em pw s w = (st, s1, w1)"
    by (cases "attempt_once mx a em pw s w") auto
  from attempt_once_world [OF a1] obtain evs1 where
    f: "same_srcs w w1" "random_calls w1 = random_calls w" "use_proxy s1 = use_proxy s"
    "valid_creds s1 = valid_creds s" "invalid_creds s1 = invalid_creds s"
    "trace w1 = trace w @ evs1" "attempts evs1 = 1"
    "case st of Continue \<Rightarrow> list_all (\<lambda>ev. \<not> answer200 ev) evs1 | Return t \<Rightarrow> settled t evs1"
    by blast
  show ?case
  proof (cases st)
    case (Return t1)
    with Cons.prems a1 have e: "t = t1" "s' = s1" "w' = w1" by simp_all
    from f(8) Return e have "settled t evs1" by simp
    with f(6,7) e have "\<exists>evs. trace w' = trace w @ evs \<and> attempts evs \<le> length (a # as) \<and> settled t evs"
      by (intro exI [of _ evs1]) simp
    with f e show ?thesis by simp
  next
    case Continue
    with Cons.prems a1 have "auth_loop mx as em pw s1 w1 = (t, s', w')" by simp
    from Cons.IH [OF this] obtain evs2 where
      g: "same_srcs w1 w'" "random_calls w' = random_calls w1" "use_proxy s' = use_proxy s1"
      "valid_creds s' = valid_creds s1" "invalid_creds s' = invalid_creds s1"
      "trace w' = trace w1 @ evs2" "attempts evs2 \<le> length as" "settled t evs2"
      by blast
    from f(8) Continue have "list_all (\<lambda>ev. \<not> answer200 ev) evs1" by simp
    from settled_prepend [OF this g(8)] f(6,7) g(6,7)
    have "\<exists>evs. trace w' = trace w @ evs \<and> attempts evs \<le> length (a # as) \<and> settled t evs"
      by (intro exI [of _ "evs1 @ evs2"]) (simp add: attempts_append)
    moreover have "same_srcs w w'" using f(1) g(1) by (rule same_srcs_trans)
    ultimately show ?thesis using f g by simp
  qed
qed

lemma get_auth_token_world:
  assumes "get_auth_token em pw s w = (t, s', w')"
  shows "same_srcs w w' \<and> random_calls w' = random_calls w \<and>
         use_proxy s' = use_proxy s \<and> valid_creds s' = valid_creds s \<and>
         invalid_creds s' = invalid_creds s \<and>
         (\<exists>evs. trace w' = trace w @ evs \<and> attempts evs \<le> 2 \<and> settled t evs)"
proof -
  from assms have "auth_loop 2 [0..<2] em pw s w = (t, s', w')"
    by (simp add: get_auth_token_def)
  from auth_loop_world [OF this] show ?thesis by simp
qed

text \<open>What \<^verbatim>\<open>check_single\<close> does, in terms of the token \<^verbatim>\<open>_get_auth_token\<close> returned.\<close>

lemma check_single_unfold:
  assumes "check_single em pw s w = (r, s', w')"
  shows "\<exists>t s1. get_auth_token em pw s w = (t, s1, w') \<and>
           r = \<lparr>res_email = em, res_password = pw, res_valid = truthy t, res_proxy = proxy s1\<rparr> \<and>
           s' = (if truthy t then s1\<lparr>valid_creds := valid_creds s1 @ [r]\<rparr>
                 else s1\<lparr>invalid_creds := invalid_creds s1 @ [r]\<rparr>)"
proof -
  obtain t s1 w1 where g: "get_auth_token em pw s w = (t, s1, w1)"
    by (cases "get_auth_token em pw s w") auto
  with assms show ?thesis
    by (auto simp: check_single_def check_credentials_def Let_def split: if_splits)
qed

lemma new_events_append: "trace w' = trace w @ evs \<Longrightarrow> new_events w w' = evs"
  by (simp add: new_events_def)

lemma check_single_world:
  assumes "check_single em pw s w = (r, s', w')"
  shows "same_srcs w w' \<and> random_calls w' = random_calls w \<and> use_proxy s' = use_proxy s \<and>
         res_email r = em \<and> res_password r = pw \<and>
         trace w' = trace w @ new_events w w' \<and> attempts (new_events w w') \<le> 2 \<and>
         (\<exists>t. settled t (new_events w w') \<and> res_valid r = truthy t)"
proof -
  from check_single_unfold [OF assms] obtain t s1 where
    g: "get_auth_token em pw s w = (t, s1, w')"
    and r: "r = \<lparr>res_email = em, res_password = pw, res_valid = truthy t, res_proxy = proxy s1\<rparr>"
    and s': "s' = (if truthy t then s1\<lparr>valid_creds := valid_creds s1 @ [r]\<rparr>
                   else s1\<lparr>invalid_creds := invalid_creds s1 @ [r]\<rparr>)"
    by blast
  from get_auth_token_world [OF g] obtain evs where
    f: "same_srcs w w'" "random_calls w' = random_calls w" "use_proxy s1 = use_proxy s"
    "trace w' = trace w @ evs" "attempts evs \<le> 2" "settled t evs"
    by blast
  have ne: "new_events w w' = evs" using f(4) by (rule new_events_append)
  have "use_proxy s' = use_proxy s" using s' f(3) by simp
  moreover have "\<exists>t. settled t (new_events w w') \<and> res_valid r = truthy t"
    using f(6) ne r by (intro exI [of _ t]) simp
  ultimately show ?thesis using f ne r by simp
qed

section \<open>Attempts in worlds that always answer alike\<close>

lemma always_rate_limited_cong: "same_srcs w w' \<Longrightarrow> always_rate_limited w' = always_rate_limited w"
  by (simp add: same_srcs_def always_rate_limited_def)


text \<open>An attempt in a world that always limits: two exchanges, then the rotation decides.\<close>

lemma rate_limited_step:
  assumes "always_rate_limited w"
  shows "\<exists>w2 G P. same_srcs w w2 \<and> trace w2 = trace w @ [G, P] \<and> attempts [G, P] = 1 \<and>
           attempt_event G \<and> attempt_event P \<and> rate_limited P \<and>
           attempt_once mx a em pw s w =
             (case rotate_proxy (use_proxy s) s w2 of
                (ok, s', w') \<Rightarrow> (if ok then Continue else Return JNull, s', w'))"
proof -
  from assms obtain page where
    g: "http_src w (http_calls w) (session_proxies s) (GET signin_url) = Returns page"
    unfolding always_rate_limited_def by blast
  define G where "G = Exchange (GET signin_url) (Returns page)"
  define w1 where "w1 = w\<lparr>http_calls := Suc (http_calls w), trace := trace w @ [G]\<rparr>"
  define payload where
    "payload = [(''email'', em), (''password'', pw), (''_csrf'', extract_csrf (text_of page))]"
  from assms obtain resp where
    p: "http_src w (Suc (http_calls w)) (session_proxies s) (POST login_url payload) = Returns resp"
    and c: "status_code resp = 403 \<or> status_code resp = 429"
    unfolding always_rate_limited_def by blast
  define P where "P = Exchange (POST login_url payload) (Returns resp)"
  define w2 where "w2 = w1\<lparr>http_calls := Suc (http_calls w1), trace := trace w1 @ [P]\<rparr>"
  have sr1: "session_request (session_proxies s) (GET signin_url) w = (Returns page, w1)"
    using g by (simp add: session_request_def w1_def G_def Let_def)
  have sr2: "session_request (session_proxies s) (POST login_url payload) w1 = (Returns resp, w2)"
    using p by (simp add: session_request_def w2_def w1_def P_def Let_def)
  have "same_srcs w w2" "trace w2 = trace w @ [G, P]"
    by (simp_all add: w2_def w1_def same_srcs_def)
  moreover have "attempts [G, P] = 1" "attempt_event G" "attempt_event P" "rate_limited P"
    using c by (auto simp: attempts_def is_attempt_def G_def P_def attempt_event_def
        rate_limited_def login_answer_def)
  moreover have "attempt_once mx a em pw s w =
             (case rotate_proxy (use_proxy s) s w2 of
                (ok, s', w') \<Rightarrow> (if ok then Continue else Return JNull, s', w'))"
    using sr1 sr2 c
    by (auto simp: attempt_once_def payload_def Let_def split: prod.splits bool.splits)
  ultimately show ?thesis by blast
qed


text \<open>A first attempt that is Rejected ends the call after its two exchanges.\<close>

lemma rejected_step:
  assumes "first_attempt_rejected s w"
  shows "\<exists>w2 G P t. trace w2 = trace w @ [G, P] \<and> attempts [G, P] = 1 \<and> rejected P \<and>
           \<not> truthy t \<and> attempt_once mx a em pw s w = (Return t, s, w2)"
proof -
  from assms obtain page where
    g: "http_src w (http_calls w) (session_proxies s) (GET signin_url) = Returns page"
    unfolding first_attempt_rejected_def by blast
  define G where "G = Exchange (GET signin_url) (Returns page)"
  define w1 where "w1 = w\<lparr>http_calls := Suc (http_calls w), trace := trace w @ [G]\<rparr>"
  define payload where
    "payload = [(''email'', em), (''password'', pw), (''_csrf'', extract_csrf (text_of page))]"
  from assms obtain resp kvs where
    p: "http_src w (Suc (http_calls w)) (session_proxies s) (POST login_url payload) = Returns resp"
    and c: "status_code resp = 200" "json_body resp = Some (JObj kvs)"
      "\<not> truthy (dict_get kvs ''token'')"
    unfolding first_attempt_rejected_def by blast
  define P where "P = Exchange (POST login_url payload) (Returns resp)"
  define w2 where "w2 = w1\<lparr>http_calls := Suc (http_calls w1), trace := trace w1 @ [P]\<rparr>"
  have sr1: "session_request (session_proxies s) (GET signin_url) w = (Returns page, w1)"
    using g by (simp add: session_request_def w1_def G_def Let_def)
  have sr2: "session_request (session_proxies s) (POST login_url payload) w1 = (Returns resp, w2)"
    using p by (simp add: session_request_def w2_def w1_def P_def Let_def)
  have "trace w2 = trace w @ [G, P]"
    by (simp add: w2_def w1_def)
  moreover have "attempts [G, P] = 1" "rejected P"
    using c by (auto simp: attempts_def is_attempt_def G_def P_def rejected_def login_answer_def)
  moreover have "attempt_once mx a em pw s w = (Return (dict_get kvs ''token''), s, w2)"
    using sr1 sr2 c by (simp add: attempt_once_def payload_def Let_def)
  ultimately show ?thesis using c(3) by blast
qed

section \<open>The two iterations of the loop\<close>

lemma get_auth_token_unroll:
  "get_auth_token em pw s w =
     (case attempt_once 2 0 em pw s w of
        (Return t, s', w') \<Rightarrow> (t, s', w')
      | (Continue, s1, w1) \<Rightarrow>
          (case attempt_once 2 1 em pw s1 w1 of
             (Return t, s', w') \<Rightarrow> (t, s', w')
           | (Continue, s', w') \<Rightarrow> (JNull, s', w')))"
proof -
  have "[0..<2] = [0, 1 :: nat]" by (simp add: upt_rec)
  then show ?thesis
    by (simp add: get_auth_token_def split: prod.splits step.splits)
qed

lemma total_sleep_append: "total_sleep (xs @ ys) = total_sleep xs + total_sleep ys"
  by (induction xs rule: total_sleep.induct) simp_all

lemma total_sleep_attempt: "list_all attempt_event evs \<Longrightarrow> total_sleep evs = 0"
  by (induction evs rule: total_sleep.induct) (simp_all add: attempt_event_def)

lemma on_error_continue:
  assumes "on_error mx a e s w = (Continue, s', w')"
  shows "e = RequestException \<and> a < mx - 1 \<and>
         (\<exists>w3. rotate_proxy (use_proxy s) s w = (True, s', w3) \<and> w' = sleep 2 w3)"
  using assms
  by (auto simp: on_error_def split: exn.splits if_splits prod.splits bool.splits)

text \<open>The two ways in which an attempt ends with \<^verbatim>\<open>continue\<close>.\<close>

lemma continue_shape:
  assumes "attempt_once mx a em pw s w = (Continue, s', w')"
  shows "\<exists>ex rot. ex \<noteq> [] \<and> list_all attempt_event ex \<and> list_all rot_event rot \<and>
           ((rate_limited (last ex) \<and> new_events w w' = ex @ rot \<and>
             total_sleep (new_events w w') = total_sleep rot) \<or>
            (request_error (last ex) \<and> list_all (\<lambda>ev. \<not> rate_limited ev) ex \<and>
             new_events w w' = ex @ rot @ [Sleep 2] \<and>
             total_sleep (new_events w w') = total_sleep rot + 2))"
proof -
  define g where "g = http_src w (http_calls w) (session_proxies s) (GET signin_url)"
  define G where "G = Exchange (GET signin_url) g"
  define w1 where "w1 = w\<lparr>http_calls := Suc (http_calls w), trace := trace w @ [G]\<rparr>"
  have sr1: "session_request (session_proxies s) (GET signin_url) w = (g, w1)"
    by (simp add: session_request_def g_def w1_def G_def Let_def)
  have w1: "trace w1 = trace w @ [G]" "attempt_event G"
    by (simp_all add: w1_def G_def attempt_event_def)
  have transient: ?thesis
    if oe: "on_error mx a e s w0 = (Continue, s', w')"
      and w0: "trace w0 = trace w @ ex" "list_all attempt_event ex" "ex \<noteq> []"
      "e = RequestException \<Longrightarrow> request_error (last ex)"
      "list_all (\<lambda>ev. \<not> rate_limited ev) ex"
    for e w0 ex
  proof -
    from on_error_continue [OF oe] obtain w3 where
      e: "e = RequestException" and r: "rotate_proxy (use_proxy s) s w0 = (True, s', w3)"
      and w': "w' = sleep 2 w3" by blast
    from rotate_proxy_world [OF r] obtain rot where
      rot: "trace w3 = trace w0 @ rot" "list_all rot_event rot" by blast
    have ne: "new_events w w' = ex @ rot @ [Sleep 2]"
      using w' rot(1) w0(1) by (simp add: new_events_def sleep_def)
    moreover have "total_sleep (ex @ rot @ [Sleep 2]) = total_sleep rot + 2"
      using w0(2) by (simp add: total_sleep_append total_sleep_attempt)
    ultimately show ?thesis using w0 e rot(2)
      by (intro exI [of _ ex] exI [of _ rot]) simp
  qed
  show ?thesis
  proof (cases g)
    case (Raises e)
    with assms sr1 have "on_error mx a e s w1 = (Continue, s', w')"
      by (simp add: attempt_once_def)
    moreover have "e = RequestException \<Longrightarrow> request_error (last [G])"
      using Raises by (simp add: G_def request_error_def)
    moreover have "list_all (\<lambda>ev. \<not> rate_limited ev) [G]"
      by (simp add: G_def rate_limited_def login_answer_def)
    ultimately show ?thesis using w1 by (intro transient [of e w1 "[G]"]) simp_all
  next
    case (Returns page)
    define payload where
      "payload = [(''email'', em), (''password'', pw), (''_csrf'', extract_csrf (text_of page))]"
    define p where "p = http_src w1 (http_calls w1) (session_proxies s) (POST login_url payload)"
    define P where "P = Exchange (POST login_url payload) p"
    define w2 where "w2 = w1\<lparr>http_calls := Suc (http_calls w1), trace := trace w1 @ [P]\<rparr>"
    have sr2: "session_request (session_proxies s) (POST login_url payload) w1 = (p, w2)"
      by (simp add: session_request_def p_def w2_def P_def Let_def)
    have w2: "trace w2 = trace w @ [G, P]" "list_all attempt_event [G, P]"
      using w1 by (simp_all add: w2_def P_def attempt_event_def)
    show ?thesis
    proof (cases p)
      case (Raises e)
      with assms sr1 sr2 Returns have "on_error mx a e s w2 = (Continue, s', w')"
        by (simp add: attempt_once_def payload_def Let_def)
      moreover have "e = RequestException \<Longrightarrow> request_error (last [G, P])"
        using Raises by (simp add: P_def request_error_def)
      moreover have "list_all (\<lambda>ev. \<not> rate_limited ev) [G, P]"
        using Raises by (simp add: G_def P_def rate_limited_def login_answer_def)
      ultimately show ?thesis using w2 by (intro transient [of e w2 "[G, P]"]) simp_all
    next
      case (Returns resp)
      note p = this
      from assms sr1 sr2 \<open>g = Returns page\<close> p
      have c: "status_code resp = 403 \<or> status_code resp = 429"
        and r: "rotate_proxy (use_proxy s) s w2 = (True, s', w')"
        by (auto simp: attempt_once_def payload_def Let_def on_error_def
            split: if_splits option.splits json.splits prod.splits bool.splits)
      from rotate_proxy_world [OF r] obtain rot where
        rot: "trace w' = trace w2 @ rot" "list_all rot_event rot" by blast
      have "rate_limited (last [G, P])"
        using c p by (auto simp: P_def rate_limited_def login_answer_def)
      moreover have "new_events w w' = [G, P] @ rot"
        using rot(1) w2(1) by (simp add: new_events_def)
      moreover have "total_sleep ([G, P] @ rot) = total_sleep rot"
        using w2(2) total_sleep_attempt [of "[G, P]"] by (simp only: total_sleep_append)
      ultimately show ?thesis using w2(2) rot(2)
        by (intro exI [of _ "[G, P]"] exI [of _ rot]) simp
    qed
  qed
qed




text \<open>A call in which nothing was rate limited and no request failed makes one attempt.\<close>

lemma one_attempt_unless_retried:
  assumes "get_auth_token em pw s w = (t, s', w')"
    and "\<forall>ev\<in>set (new_events w w'). \<not> rate_limited ev \<and> \<not> request_error ev"
  shows "attempts (new_events w w') = 1"
proof -
  obtain st s1 w1 where a0: "attempt_once 2 0 em pw s w = (st, s1, w1)"
    by (cases "attempt_once 2 0 em pw s w") auto
  from attempt_once_world [OF a0] obtain evs1 where
    e1: "trace w1 = trace w @ evs1" "attempts evs1 = 1" by blast
  show ?thesis
  proof (cases st)
    case (Return t1)
    with a0 assms(1) have "w' = w1" by (simp add: get_auth_token_unroll)
    with e1 show ?thesis by (simp add: new_events_def)
  next
    case Continue
    with a0 have c: "attempt_once 2 0 em pw s w = (Continue, s1, w1)" by simp
    from continue_shape [OF c] obtain ex rot where
      ex: "ex \<noteq> []" and alt: "(rate_limited (last ex) \<and> new_events w w1 = ex @ rot) \<or>
        (request_error (last ex) \<and> new_events w w1 = ex @ rot @ [Sleep 2])"
      by blast
    then have bad: "\<exists>ev\<in>set (new_events w w1). rate_limited ev \<or> request_error ev"
      by (metis last_in_set Un_iff set_append)
    obtain st2 s2 w2 where a1: "attempt_once 2 1 em pw s1 w1 = (st2, s2, w2)"
      by (cases "attempt_once 2 1 em pw s1 w1") auto
    from attempt_once_world [OF a1] obtain evs2 where
      e2: "trace w2 = trace w1 @ evs2" by blast
    from c a1 assms(1) have "w' = w2"
      by (cases st2) (simp_all add: get_auth_token_unroll)
    with e1(1) e2 have "new_events w w' = new_events w w1 @ evs2"
      by (simp add: new_events_def)
    with bad assms(2) show ?thesis by auto
  qed
qed

section \<open>The two collections and the batch\<close>

lemma check_single_lists:
  assumes "check_single em pw s w = (r, s', w')"
  shows "(res_valid r \<and> valid_creds s' = valid_creds s @ [r] \<and> invalid_creds s' = invalid_creds s) \<or>
         (\<not> res_valid r \<and> invalid_creds s' = invalid_creds s @ [r] \<and> valid_creds s' = valid_creds s)"
proof -
  from check_single_unfold [OF assms] obtain t s1 where
    g: "get_auth_token em pw s w = (t, s1, w')"
    and r: "r = \<lparr>res_email = em, res_password = pw, res_valid = truthy t, res_proxy = proxy s1\<rparr>"
    and s': "s' = (if truthy t then s1\<lparr>valid_creds := valid_creds s1 @ [r]\<rparr>
                   else s1\<lparr>invalid_creds := invalid_creds s1 @ [r]\<rparr>)"
    by blast
  from get_auth_token_world [OF g] have "valid_creds s1 = valid_creds s"
    "invalid_creds s1 = invalid_creds s" by simp_all
  with r s' show ?thesis by (cases "truthy t") simp_all
qed

lemma check_each_lists:
  assumes "check_each ps s w = (rs, s', w')"
  shows "map (\<lambda>r. (res_email r, res_password r)) rs = ps \<and>
         valid_creds s' = valid_creds s @ filter res_valid rs \<and>
         invalid_creds s' = invalid_creds s @ filter (\<lambda>r. \<not> res_valid r) rs"
  using assms
proof (induction ps arbitrary: s w rs s' w')
  case Nil
  then show ?case by simp
next
  case (Cons p ps)
  obtain em pw where p: "p = (em, pw)" by (cases p)
  obtain r s1 w1 where c: "check_single em pw s w = (r, s1, w1)"
    by (cases "check_single em pw s w") auto
  obtain rs2 s2 w2 where e: "check_each ps s1 w1 = (rs2, s2, w2)"
    by (cases "check_each ps s1 w1") auto
  from Cons.prems p c e have eq: "rs = r # rs2" "s' = s2" by simp_all
  from check_single_world [OF c] have "res_email r = em" "res_password r = pw" by simp_all
  with Cons.IH [OF e] check_single_lists [OF c] eq p show ?case by auto
qed

lemma browser_check_each_lists:
  assumes "browser_check_each calls s = (rs, s')"
  shows "map (\<lambda>r. (bres_valid r, bres_email r, bres_password r)) rs = calls \<and>
         browser_valid_creds s' = browser_valid_creds s @ filter bres_valid rs \<and>
         browser_invalid_creds s' = browser_invalid_creds s @ filter (\<lambda>r. \<not> bres_valid r) rs"
  using assms
proof (induction calls arbitrary: s rs s')
  case Nil
  then show ?case by simp
next
  case (Cons c calls)
  obtain b em pw where c: "c = (b, em, pw)" by (cases c)
  obtain r s1 where b1: "browser_check_single b em pw s = (r, s1)"
    by (cases "browser_check_single b em pw s") auto
  obtain rs2 s2 where e: "browser_check_each calls s1 = (rs2, s2)"
    by (cases "browser_check_each calls s1") auto
  from Cons.prems c b1 e have eq: "rs = r # rs2" "s' = s2" by simp_all
  from b1 have "r = \<lparr>bres_email = em, bres_password = pw, bres_valid = b\<rparr>"
    "s1 = (if b then s\<lparr>browser_valid_creds := browser_valid_creds s @ [r]\<rparr>
           else s\<lparr>browser_invalid_creds := browser_invalid_creds s @ [r]\<rparr>)"
    by (auto simp: browser_check_single_def Let_def split: if_splits)
  with Cons.IH [OF e] eq c show ?case by (cases b) auto
qed

lemma init_checker_lists:
  assumes "init_checker up w = (s, w')"
  shows "valid_creds s = [] \<and> invalid_creds s = [] \<and> use_proxy s = up"
proof (cases up)
  case False
  with assms show ?thesis by (auto simp: init_checker_def Let_def)
next
  case True
  let ?s0 = "\<lparr>use_proxy = up, proxy = None, session_proxies = [], valid_creds = [],
              invalid_creds = []\<rparr>"
  obtain ok s1 w1 where r: "rotate_proxy True ?s0 w = (ok, s1, w1)"
    by (cases "rotate_proxy True ?s0 w") auto
  with assms True have "s = s1" by (simp add: init_checker_def Let_def)
  with rotate_proxy_checker [OF r] show ?thesis by simp
qed

lemma partition_disjoint: "set (filter P rs) \<inter> set (filter (\<lambda>r. \<not> P r) rs) = {}"
  by auto

lemma partition_exactly_one:
  "\<forall>r\<in>set rs. (r \<in> set (filter P rs)) \<noteq> (r \<in> set (filter (\<lambda>r. \<not> P r) rs))"
  by auto

lemma partition_length: "length (filter P rs) + length (filter (\<lambda>r. \<not> P r) rs) = length rs"
  by (rule sum_length_filter_compl)

lemma pace_world:
  assumes "pace s w = (s', w')"
  shows "same_srcs w w' \<and> use_proxy s' = use_proxy s \<and> valid_creds s' = valid_creds s \<and>
         invalid_creds s' = invalid_creds s \<and>
         (\<exists>evs. trace w' = trace w @ evs \<and> list_all (\<lambda>ev. \<not> answer200 ev) evs)"
proof -
  define x where "x = random_src w (random_calls w)"
  define wr where "wr = w\<lparr>random_calls := Suc (random_calls w)\<rparr>"
  have rr: "random_random w = (x, wr)" by (simp add: random_random_def x_def wr_def)
  have tail: "same_srcs w w' \<and> (\<exists>evs. trace w' = trace w @ evs \<and> list_all (\<lambda>ev. \<not> answer200 ev) evs)"
    if w2: "same_srcs w w2" "trace w2 = trace w @ evs0" "list_all (\<lambda>ev. \<not> answer200 ev) evs0"
      and w': "w' = (case random_uniform 1 3 w2 of (d, w3) \<Rightarrow> sleep d w3)"
    for w2 evs0
  proof -
    obtain d where "w' = sleep d (w2\<lparr>random_calls := Suc (random_calls w2)\<rparr>)"
      using w' by (simp add: random_uniform_def random_random_def)
    then have "same_srcs w w'" "trace w' = trace w @ (evs0 @ [Sleep d])"
      using w2 by (simp_all add: sleep_def same_srcs_def)
    moreover have "list_all (\<lambda>ev. \<not> answer200 ev) (evs0 @ [Sleep d])"
      using w2(3) by (simp add: answer200_def login_answer_def)
    ultimately show ?thesis by blast
  qed
  show ?thesis
  proof (cases "use_proxy s \<and> x > 7 / 10")
    case True
    obtain ok s1 w1 where r: "rotate_proxy True s wr = (ok, s1, w1)"
      by (cases "rotate_proxy True s wr") auto
    from rotate_proxy_world [OF r] obtain rot where
      rot: "same_srcs wr w1" "trace w1 = trace wr @ rot" "list_all rot_event rot" by blast
    from assms True rr r have s': "s' = s1"
      and w': "w' = (case random_uniform 1 3 w1 of (d, w3) \<Rightarrow> sleep d w3)"
      by (auto simp: pace_def split: prod.splits)
    have "same_srcs w w1" "trace w1 = trace w @ rot"
      using rot(1,2) by (simp_all add: wr_def same_srcs_def)
    from tail [OF this _ w'] rot_events_quiet [OF rot(3)] rotate_proxy_checker [OF r] s'
    show ?thesis by simp
  next
    case False
    define w2 where "w2 = (if use_proxy s then wr else w)"
    from assms False rr have s': "s' = s"
      and w': "w' = (case random_uniform 1 3 w2 of (d, w3) \<Rightarrow> sleep d w3)"
      by (auto simp: pace_def w2_def split: prod.splits if_splits)
    have "same_srcs w w2" "trace w2 = trace w @ []"
      by (simp_all add: w2_def wr_def same_srcs_def)
    from tail [OF this _ w'] s' show ?thesis by simp
  qed
qed

lemma check_bulk_loop_total:
  assumes "\<forall>cred\<in>set credentials. is_pair cred"
  shows "\<exists>rs s' w' evs.
           check_bulk_loop credentials results s w = Inr (results @ rs, s', w') \<and>
           map (\<lambda>r. (Some (res_email r), Some (res_password r))) rs
             = map (\<lambda>cred. (cred ''email'', cred ''password'')) credentials \<and>
           trace w' = trace w @ evs \<and>
           (\<forall>r\<in>set rs. res_valid r \<longrightarrow> (\<exists>ev\<in>set evs. success_signal ev)) \<and>
           valid_creds s' = valid_creds s @ filter res_valid rs \<and>
           invalid_creds s' = invalid_creds s @ filter (\<lambda>r. \<not> res_valid r) rs"
  using assms
proof (induction credentials arbitrary: results s w)
  case Nil
  then show ?case by simp
next
  case (Cons cred creds)
  from Cons.prems obtain em pw where
    k: "cred ''email'' = Some em" "cred ''password'' = Some pw"
    by (auto simp: is_pair_def)
  obtain r s1 w1 where c: "check_single em pw s w = (r, s1, w1)"
    by (cases "check_single em pw s w") auto
  obtain s2 w2 where p: "pace s1 w1 = (s2, w2)"
    by (cases "pace s1 w1") auto
  from check_single_world [OF c] obtain t where
    f: "res_email r = em" "res_password r = pw" "trace w1 = trace w @ new_events w w1"
    "settled t (new_events w w1)" "res_valid r = truthy t"
    by blast
  from pace_world [OF p] obtain evs2 where
    g: "valid_creds s2 = valid_creds s1" "invalid_creds s2 = invalid_creds s1"
    "trace w2 = trace w1 @ evs2"
    by blast
  from Cons.prems have "\<forall>cred\<in>set creds. is_pair cred" by simp
  from Cons.IH [OF this, of "results @ [r]" s2 w2] obtain rs s' w' evs where
    ih: "check_bulk_loop creds (results @ [r]) s2 w2 = Inr ((results @ [r]) @ rs, s', w')"
    "map (\<lambda>r. (Some (res_email r), Some (res_password r))) rs
       = map (\<lambda>cred. (cred ''email'', cred ''password'')) creds"
    "trace w' = trace w2 @ evs"
    "\<forall>r\<in>set rs. res_valid r \<longrightarrow> (\<exists>ev\<in>set evs. success_signal ev)"
    "valid_creds s' = valid_creds s2 @ filter res_valid rs"
    "invalid_creds s' = invalid_creds s2 @ filter (\<lambda>r. \<not> res_valid r) rs"
    by blast
  let ?evs = "new_events w w1 @ evs2 @ evs"
  have 1: "check_bulk_loop (cred # creds) results s w = Inr (results @ (r # rs), s', w')"
    using k c p ih(1) by simp
  have 2: "map (\<lambda>r. (Some (res_email r), Some (res_password r))) (r # rs)
             = map (\<lambda>cred. (cred ''email'', cred ''password'')) (cred # creds)"
    using k f(1,2) ih(2) by simp
  have 3: "trace w' = trace w @ ?evs"
    using f(3) g(3) ih(3) by simp
  have 4: "\<forall>r'\<in>set (r # rs). res_valid r' \<longrightarrow> (\<exists>ev\<in>set ?evs. success_signal ev)"
    using settled_truthy [OF f(4)] f(5) ih(4) by auto
  have 5: "valid_creds s' = valid_creds s @ filter res_valid (r # rs)"
    "invalid_creds s' = invalid_creds s @ filter (\<lambda>r. \<not> res_valid r) (r # rs)"
    using check_single_lists [OF c] g(1,2) ih(5,6) by auto
  show ?case
    apply (rule exI [of _ "r # rs"], rule exI [of _ s'], rule exI [of _ w'], rule exI [of _ ?evs])
    using 1 2 3 4 5 by (intro conjI)
qed

text \<open>The results of a batch are those of its calls of \<^verbatim>\<open>check_single\<close>, pair by pair.\<close>

lemma pair_calls_step:
  assumes "d ''email'' = Some em" and "d ''password'' = Some pw"
    and "check_single em pw s w = (r, s1, w1)" and "pace s1 w1 = (s2, w2)"
  shows "pair_calls (d # rest) s w = ((s, w), (r, s1, w1)) # pair_calls rest s2 w2"
  using assms by simp

lemma pair_calls_valid:
  "\<forall>c\<in>set (pair_calls credentials s w).
     res_valid (fst (snd c)) \<longleftrightarrow>
       (\<exists>ev\<in>set (new_events (snd (fst c)) (snd (snd (snd c)))). success_signal ev)"
proof (induction credentials arbitrary: s w)
  case Nil
  show ?case by simp
next
  case (Cons d rest)
  define em where "em = the (d ''email'')"
  define pw where "pw = the (d ''password'')"
  obtain r s1 w1 where c: "check_single em pw s w = (r, s1, w1)"
    by (cases "check_single em pw s w") auto
  obtain s2 w2 where p: "pace s1 w1 = (s2, w2)"
    by (cases "pace s1 w1") auto
  have u: "pair_calls (d # rest) s w = ((s, w), (r, s1, w1)) # pair_calls rest s2 w2"
    using c p by (simp add: em_def pw_def)
  from check_single_world [OF c] obtain t where
    "settled t (new_events w w1)" "res_valid r = truthy t" by blast
  with settled_truthy [of t "new_events w w1"]
  have "res_valid r \<longleftrightarrow> (\<exists>ev\<in>set (new_events w w1). success_signal ev)" by simp
  with Cons.IH [of s2 w2] show ?case unfolding u by simp
qed

lemma pair_calls_each:
  "list_all2
     (\<lambda>cred c. snd c = check_single (the (cred ''email'')) (the (cred ''password''))
                          (fst (fst c)) (snd (fst c)))
     credentials (pair_calls credentials s w)"
proof (induction credentials arbitrary: s w)
  case Nil
  show ?case by simp
next
  case (Cons d rest)
  define em where "em = the (d ''email'')"
  define pw where "pw = the (d ''password'')"
  obtain r s1 w1 where c: "check_single em pw s w = (r, s1, w1)"
    by (cases "check_single em pw s w") auto
  obtain s2 w2 where p: "pace s1 w1 = (s2, w2)"
    by (cases "pace s1 w1") auto
  have u: "pair_calls (d # rest) s w = ((s, w), (r, s1, w1)) # pair_calls rest s2 w2"
    using c p by (simp add: em_def pw_def)
  from Cons.IH [of s2 w2] c show ?case unfolding u by (simp add: em_def pw_def)
qed

lemma check_bulk_loop_calls:
  assumes "\<forall>cred\<in>set credentials. is_pair cred"
  shows "\<exists>s' w' evs.
           check_bulk_loop credentials results s w
             = Inr (results @ map (\<lambda>c. fst (snd c)) (pair_calls credentials s w), s', w') \<and>
           trace w' = trace w @ evs \<and>
           (\<forall>c\<in>set (pair_calls credentials s w).
              \<exists>pre post. evs = pre @ new_events (snd (fst c)) (snd (snd (snd c))) @ post)"
  using assms
proof (induction credentials arbitrary: results s w)
  case Nil
  show ?case by simp
next
  case (Cons d rest)
  from Cons.prems obtain em pw where
    k: "d ''email'' = Some em" "d ''password'' = Some pw"
    by (auto simp: is_pair_def)
  obtain r s1 w1 where c: "check_single em pw s w = (r, s1, w1)"
    by (cases "check_single em pw s w") auto
  obtain s2 w2 where p: "pace s1 w1 = (s2, w2)"
    by (cases "pace s1 w1") auto
  note u = pair_calls_step [OF k c p, of rest]
  from check_single_world [OF c] have e1: "trace w1 = trace w @ new_events w w1" by simp
  from pace_world [OF p] obtain e2 where e2: "trace w2 = trace w1 @ e2" by blast
  from Cons.prems have "\<forall>cred\<in>set rest. is_pair cred" by simp
  from Cons.IH [OF this, of "results @ [r]" s2 w2] obtain s' w' evs where
    ih: "check_bulk_loop rest (results @ [r]) s2 w2
           = Inr ((results @ [r]) @ map (\<lambda>c. fst (snd c)) (pair_calls rest s2 w2), s', w')"
    "trace w' = trace w2 @ evs"
    "\<forall>c\<in>set (pair_calls rest s2 w2).
        \<exists>pre post. evs = pre @ new_events (snd (fst c)) (snd (snd (snd c))) @ post"
    by blast
  let ?evs = "new_events w w1 @ e2 @ evs"
  have 1: "check_bulk_loop (d # rest) results s w
             = Inr (results @ map (\<lambda>c. fst (snd c)) (pair_calls (d # rest) s w), s', w')"
    unfolding u using k c p ih(1) by simp
  have 2: "trace w' = trace w @ ?evs"
    using e1 e2 ih(2) by simp
  have 3: "\<exists>pre post. ?evs = pre @ new_events (snd (fst c)) (snd (snd (snd c))) @ post"
    if "c \<in> set (pair_calls (d # rest) s w)" for c
  proof (cases "c = ((s, w), (r, s1, w1))")
    case True
    then have "?evs = [] @ new_events (snd (fst c)) (snd (snd (snd c))) @ (e2 @ evs)" by simp
    then show ?thesis by blast
  next
    case False
    with that have "c \<in> set (pair_calls rest s2 w2)" unfolding u by simp
    with ih(3) obtain pre post where
      "evs = pre @ new_events (snd (fst c)) (snd (snd (snd c))) @ post" by blast
    then have "?evs = (new_events w w1 @ e2 @ pre)
                 @ new_events (snd (fst c)) (snd (snd (snd c))) @ post" by simp
    then show ?thesis by blast
  qed
  show ?case
    apply (rule exI [of _ s'], rule exI [of _ w'], rule exI [of _ ?evs])
    using 1 2 3 by (intro conjI ballI)
qed

section \<open>The loop over the custom checks\<close>

lemma custom_checks_loop_Cons:
  "custom_checks_loop ((check_name, info) # rest) imap counts =
     (if is_reserved check_name \<or> \<not> is_enabled info then custom_checks_loop rest imap counts
      else case email info of
             None \<Rightarrow> Inl (KeyError ''email'')
           | Some addr \<Rightarrow>
               custom_checks_loop rest (snd (fetch_emails imap (from_query addr)))
                 (counts(check_name \<mapsto> length (fst (fetch_emails imap (from_query addr))))))"
  by (simp add: is_reserved_def is_enabled_def split: option.splits prod.splits)

lemma fetch_emails_queries:
  "queries (snd (fetch_emails imap query)) = queries imap @ [query]"
  by (simp add: fetch_emails_def Let_def split: outcome.splits prod.splits)

lemma custom_checks_loop_filter:
  "custom_checks_loop checks imap counts
     = custom_checks_loop (filter (\<lambda>c. \<not> is_reserved (fst c)) checks) imap counts"
proof (induction checks arbitrary: imap counts)
  case Nil
  show ?case by simp
next
  case (Cons c checks)
  obtain check_name info where c: "c = (check_name, info)" by (cases c)
  show ?case
  proof (cases "is_reserved check_name")
    case True
    then have "custom_checks_loop (c # checks) imap counts = custom_checks_loop checks imap counts"
      unfolding c by (simp only: custom_checks_loop_Cons) simp
    also have "\<dots> = custom_checks_loop (filter (\<lambda>c. \<not> is_reserved (fst c)) checks) imap counts"
      by (rule Cons.IH)
    finally show ?thesis using True c by simp
  next
    case False
    then have f: "filter (\<lambda>c. \<not> is_reserved (fst c)) (c # checks)
                    = (check_name, info) # filter (\<lambda>c. \<not> is_reserved (fst c)) checks"
      using c by simp
    show ?thesis
    proof (cases "email info")
      case None
      then show ?thesis
        unfolding f unfolding c custom_checks_loop_Cons
        using Cons.IH [of imap counts] by simp
    next
      case (Some addr)
      define imap1 where "imap1 = snd (fetch_emails imap (from_query addr))"
      define counts1 where
        "counts1 = counts(check_name \<mapsto> length (fst (fetch_emails imap (from_query addr))))"
      note ih = Cons.IH [of imap1 counts1] Cons.IH [of imap counts]
      show ?thesis
        unfolding f unfolding c custom_checks_loop_Cons
        using Some ih by (simp only: imap1_def counts1_def option.case)
    qed
  qed
qed

lemma custom_checks_loop_effect:
  assumes "custom_checks_loop checks imap counts = Inr (counts', imap')"
  shows "queries imap' = queries imap @
           map (\<lambda>c. from_query (the (email (snd c))))
               (filter (\<lambda>c. \<not> is_reserved (fst c) \<and> is_enabled (snd c)) checks) \<and>
         (\<forall>name. is_reserved name \<longrightarrow> counts' name = counts name)"
  using assms
proof (induction checks arbitrary: imap counts)
  case Nil
  then show ?case by simp
next
  case (Cons c checks)
  obtain check_name info where c: "c = (check_name, info)" by (cases c)
  show ?case
  proof (cases "is_reserved check_name \<or> \<not> is_enabled info")
    case True
    with Cons.prems have "custom_checks_loop checks imap counts = Inr (counts', imap')"
      unfolding c custom_checks_loop_Cons by simp
    from Cons.IH [OF this] True c show ?thesis by auto
  next
    case False
    with Cons.prems obtain addr where a: "email info = Some addr"
      unfolding c custom_checks_loop_Cons by (cases "email info") simp_all
    define imap1 where "imap1 = snd (fetch_emails imap (from_query addr))"
    define n where "n = length (fst (fetch_emails imap (from_query addr)))"
    have q: "queries imap1 = queries imap @ [from_query addr]"
      unfolding imap1_def by (rule fetch_emails_queries)
    from Cons.prems False a
    have "custom_checks_loop checks imap1 (counts(check_name \<mapsto> n)) = Inr (counts', imap')"
      unfolding c custom_checks_loop_Cons imap1_def n_def by simp
    from Cons.IH [OF this] q False c a show ?thesis by auto
  qed
qed

lemma lower_stub_names:
  "py_lower ''Example_Check'' = ''example_check''" "py_lower ''github'' = ''github''"
  by (code_simp, code_simp)

section \<open>The patterns of the token extractor\<close>

lemma first_some_mem: "first_some xs = Some y \<Longrightarrow> Some y \<in> set xs"
  by (induction xs rule: first_some.induct) auto

text \<open>A match reports no group only when the pattern has none.\<close>

lemma first_some_map:
  assumes "first_some (map f ks) = Some y"
  obtains k where "k \<in> set ks" and "f k = Some y"
  using first_some_mem [OF assms] by auto

lemma match_here_group:
  "match_here p s cap = Some None \<Longrightarrow> cap = None \<and> (\<forall>c. CapPlus c \<notin> set p)"
proof (induction p s cap rule: match_here.induct)
  case (1 s cap)
  then show ?case by simp
next
  case (2 c rest s cap)
  then show ?case by (auto split: list.splits if_splits)
next
  case (3 c rest s cap)
  from "3.prems" have "first_some (map (\<lambda>k. match_here rest (drop k s) cap) (rev [1..<Suc (length (takeWhile (in_class c) s))])) = Some None"
    by (simp only: match_here.simps)
  then obtain k where
    "k \<in> set (rev [1..<Suc (length (takeWhile (in_class c) s))])"
    "match_here rest (drop k s) cap = Some None"
    by (rule first_some_map)
  from "3.IH" [OF this] show ?case by simp
next
  case (4 c rest s cap)
  from "4.prems" have "first_some (map (\<lambda>k. match_here rest (drop k s) cap) (rev [0..<Suc (length (takeWhile (in_class c) s))])) = Some None"
    by (simp only: match_here.simps)
  then obtain k where
    "k \<in> set (rev [0..<Suc (length (takeWhile (in_class c) s))])"
    "match_here rest (drop k s) cap = Some None"
    by (rule first_some_map)
  from "4.IH" [OF this] show ?case by simp
next
  case (5 c rest s cap)
  from "5.prems" have "first_some (map (\<lambda>k. match_here rest (drop k s) cap) [0..<Suc (length (takeWhile (in_class c) s))]) = Some None"
    by (simp only: match_here.simps)
  then obtain k where
    "k \<in> set [0..<Suc (length (takeWhile (in_class c) s))]"
    "match_here rest (drop k s) cap = Some None"
    by (rule first_some_map)
  from "5.IH" [OF this] show ?case by simp
next
  case (6 c rest s cap)
  from "6.prems" have "first_some (map (\<lambda>k. match_here rest (drop k s) (Some (take k s))) (rev [1..<Suc (length (takeWhile (in_class c) s))])) = Some None"
    by (simp only: match_here.simps)
  then obtain k where
    "k \<in> set (rev [1..<Suc (length (takeWhile (in_class c) s))])"
    "match_here rest (drop k s) (Some (take k s)) = Some None"
    by (rule first_some_map)
  from "6.IH" [OF this] show ?case by simp
qed

lemma re_search_group: "re_search p s = Some None \<Longrightarrow> \<forall>c. CapPlus c \<notin> set p"
  by (induction p s rule: re_search.induct) (auto split: option.splits dest: match_here_group)

lemma extract_loop_first_long:
  assumes "\<forall>p\<in>set ps. \<exists>c. CapPlus c \<in> set p"
  shows "extract_loop ps html =
           (case filter (\<lambda>token. length token > 10) (List.map_filter (\<lambda>p. capture p html) ps) of
              [] \<Rightarrow> None
            | token # others \<Rightarrow> Some token)"
  using assms
proof (induction ps)
  case Nil
  show ?case by (simp add: List.map_filter_simps)
next
  case (Cons p ps)
  from Cons.prems have "re_search p html \<noteq> Some None"
    using re_search_group by fastforce
  with Cons show ?case
    by (cases "re_search p html")
       (auto simp: List.map_filter_simps capture_def split: option.splits)
qed

lemma patterns_have_group: "\<forall>p\<in>set patterns. \<exists>c. CapPlus c \<in> set p"
  by (auto simp: patterns_def meta_pattern_def state_pattern_def input_pattern_def
      json_pattern_def)

text \<open>Text in front of the body in which no match starts does not change what is found.\<close>

lemma re_search_skip:
  assumes "no_match_inside p pre s"
  shows "re_search p (pre @ s) = re_search p s"
  using assms
proof (induction pre)
  case Nil
  show ?case by simp
next
  case (Cons c pre)
  from Cons.prems have "match_here p (drop 0 ((c # pre) @ s)) None = None"
    unfolding no_match_inside_def by (metis length_greater_0_conv list.distinct(1))
  then have h: "match_here p (c # pre @ s) None = None" by simp
  have "no_match_inside p pre s"
    unfolding no_match_inside_def
  proof (intro allI impI)
    fix i assume "i < length pre"
    then have "Suc i < length (c # pre)" by simp
    with Cons.prems have "match_here p (drop (Suc i) ((c # pre) @ s)) None = None"
      unfolding no_match_inside_def by blast
    then show "match_here p (drop i (pre @ s)) None = None" by simp
  qed
  from Cons.IH [OF this] h show ?case by simp
qed

lemma match_meta_tag:
  "match_here meta_pattern (meta_tag @ post) None = Some (Some ''abcdef0123456789'')"
  by (simp add: meta_pattern_def lit_def meta_tag_def is_space_def dquote_def)

lemma re_search_meta_tag:
  "re_search meta_pattern (meta_tag @ post) = Some (Some ''abcdef0123456789'')"
proof -
  obtain c cs where "meta_tag @ post = c # cs"
    by (cases "meta_tag @ post") (simp_all add: meta_tag_def)
  with match_meta_tag [of post] show ?thesis by simp
qed

text \<open>The marker search of the second extractor.\<close>

lemma marker_free_Cons:
  assumes "marker_free (c # pre) s"
  shows "take (length csrf_marker) (c # pre @ s) \<noteq> csrf_marker" and "marker_free pre s"
proof -
  from assms have "take (length csrf_marker) (drop 0 ((c # pre) @ s)) \<noteq> csrf_marker"
    unfolding marker_free_def by (metis length_greater_0_conv list.distinct(1))
  then show "take (length csrf_marker) (c # pre @ s) \<noteq> csrf_marker" by simp
  show "marker_free pre s"
    unfolding marker_free_def
  proof (intro allI impI)
    fix i assume "i < length pre"
    then have "Suc i < length (c # pre)" by simp
    with assms have "take (length csrf_marker) (drop (Suc i) ((c # pre) @ s)) \<noteq> csrf_marker"
      unfolding marker_free_def by blast
    then show "take (length csrf_marker) (drop i (pre @ s)) \<noteq> csrf_marker" by simp
  qed
qed

lemma after_marker_skip:
  "marker_free pre s \<Longrightarrow> after_marker csrf_marker (pre @ s) = after_marker csrf_marker s"
proof (induction pre)
  case Nil
  show ?case by simp
next
  case (Cons c pre)
  from marker_free_Cons [OF Cons.prems] Cons.IH show ?case by simp
qed

lemma before_marker_skip:
  "marker_free pre s \<Longrightarrow> before_marker csrf_marker (pre @ s) = pre @ before_marker csrf_marker s"
proof (induction pre)
  case Nil
  show ?case by simp
next
  case (Cons c pre)
  from marker_free_Cons [OF Cons.prems] Cons.IH show ?case by simp
qed

lemma after_marker_here: "after_marker csrf_marker (csrf_marker @ rest) = Some rest"
  by (simp add: csrf_marker_def)

lemma after_marker_absent:
  assumes "marker_free html []"
  shows "after_marker csrf_marker html = None"
proof -
  from after_marker_skip [OF assms] show ?thesis by (simp add: csrf_marker_def)
qed

lemma before_marker_stop:
  assumes "stop = [] \<or> hd stop = dquote \<or> take (length csrf_marker) stop = csrf_marker"
  shows "takeWhile (\<lambda>c. c \<noteq> dquote) (before_marker csrf_marker stop) = []"
proof (cases stop)
  case Nil
  then show ?thesis by simp
next
  case (Cons c cs)
  show ?thesis
  proof (cases "take (length csrf_marker) stop = csrf_marker")
    case True
    with Cons show ?thesis by simp
  next
    case False
    with assms Cons have "c = dquote" by simp
    with Cons False show ?thesis by simp
  qed
qed

lemma extract_csrf_token:
  assumes "marker_free pre (csrf_marker @ tok @ stop)" and "dquote \<notin> set tok"
    and "marker_free tok stop"
    and "stop = [] \<or> hd stop = dquote \<or> take (length csrf_marker) stop = csrf_marker"
  shows "extract_csrf (pre @ csrf_marker @ tok @ stop) = tok"
proof -
  have "after_marker csrf_marker (pre @ csrf_marker @ tok @ stop) = Some (tok @ stop)"
    using after_marker_skip [OF assms(1)] after_marker_here by simp
  moreover have "before_marker csrf_marker (tok @ stop) = tok @ before_marker csrf_marker stop"
    using assms(3) by (rule before_marker_skip)
  moreover have "takeWhile (\<lambda>c. c \<noteq> dquote) (tok @ before_marker csrf_marker stop) = tok"
  proof -
    have "\<And>x. x \<in> set tok \<Longrightarrow> x \<noteq> dquote" using assms(2) by blast
    then have "takeWhile (\<lambda>c. c \<noteq> dquote) (tok @ before_marker csrf_marker stop)
                 = tok @ takeWhile (\<lambda>c. c \<noteq> dquote) (before_marker csrf_marker stop)"
      by (rule takeWhile_append2)
    with before_marker_stop [OF assms(4)] show ?thesis by simp
  qed
  ultimately show ?thesis by (simp add: extract_csrf_def dquote_def)
qed

section \<open>Evaluation on the stub worlds\<close>

lemmas eval_defs =
  check_single_def check_credentials_def get_auth_token_unroll attempt_once_def on_error_def
  rotate_proxy_def rotate_once_def session_request_def free_proxy_get_def sleep_def
  extract_csrf_def csrf_marker_def stub_world_def answer_def fresh_def Let_def
  new_events_def dict_get_def upt_rec home_url_def signin_url_def login_url_def

lemma triple_eq: "x = (fst x, fst (snd x), snd (snd x))"
  by simp

lemma never_acquires_when_fetch_raises: "never_acquires (stub_world (\<lambda>n. Raises e) hs)"
  by (simp add: never_acquires_def stub_world_def fetch_fails_def)

section \<open>The claims\<close>

subsection \<open>The batch\<close>

text \<open>
  Claim C1. For every list of credential dicts that have the keys \<^verbatim>\<open>email\<close> and
  \<^verbatim>\<open>password\<close>, \<^verbatim>\<open>check_bulk\<close> returns (it raises nothing) a list with exactly one
  result per input pair, in the order of the input, each carrying the email and password of
  its pair. The result of a pair is the one that \<^verbatim>\<open>check_single\<close> returns for that pair, in
  the state the batch has reached; it is valid if and only if a login request of that very
  call was answered with the success signal, so a pair that fails or runs out of retries is
  reported with \<^verbatim>\<open>valid = False\<close> and the batch goes on with the next pair. The events of
  each call are a stretch of the events of the batch.
\<close>

theorem check_bulk_one_result_per_pair:
  assumes "\<forall>cred\<in>set credentials. is_pair cred"
  shows "\<exists>results s' w'.
           check_bulk credentials s w = Inr (results, s', w') \<and>
           length results = length credentials \<and>
           map (\<lambda>r. (Some (res_email r), Some (res_password r))) results
             = map (\<lambda>cred. (cred ''email'', cred ''password'')) credentials \<and>
           results = map (\<lambda>((sb, wb), (r, sa, wa)). r) (pair_calls credentials s w) \<and>
           list_all2
             (\<lambda>cred ((sb, wb), (r, sa, wa)).
                check_single (the (cred ''email'')) (the (cred ''password'')) sb wb = (r, sa, wa))
             credentials (pair_calls credentials s w) \<and>
           (\<forall>((sb, wb), (r, sa, wa))\<in>set (pair_calls credentials s w).
              (res_valid r \<longleftrightarrow> (\<exists>ev\<in>set (new_events wb wa). success_signal ev)) \<and>
              (\<exists>pre post. new_events w w' = pre @ new_events wb wa @ post)) \<and>
           (\<forall>r\<in>set results. res_valid r \<longrightarrow> (\<exists>ev\<in>set (new_events w w'). success_signal ev))"
proof -
  from check_bulk_loop_total [OF assms, of "[]" s w] obtain rs s' w' evs where
    f: "check_bulk_loop credentials [] s w = Inr ([] @ rs, s', w')"
    "map (\<lambda>r. (Some (res_email r), Some (res_password r))) rs
       = map (\<lambda>cred. (cred ''email'', cred ''password'')) credentials"
    "trace w' = trace w @ evs"
    "\<forall>r\<in>set rs. res_valid r \<longrightarrow> (\<exists>ev\<in>set evs. success_signal ev)"
    by (elim exE conjE) (rule that; assumption)
  from check_bulk_loop_calls [OF assms, of "[]" s w] obtain s2 w2 evs2 where
    g: "check_bulk_loop credentials [] s w
          = Inr ([] @ map (\<lambda>c. fst (snd c)) (pair_calls credentials s w), s2, w2)"
    "trace w2 = trace w @ evs2"
    "\<forall>c\<in>set (pair_calls credentials s w).
        \<exists>pre post. evs2 = pre @ new_events (snd (fst c)) (snd (snd (snd c))) @ post"
    by (elim exE conjE) (rule that; assumption)
  from f(1) g(1) have same: "rs = map (\<lambda>c. fst (snd c)) (pair_calls credentials s w)" "w2 = w'"
    by simp_all
  from arg_cong [OF f(2), of length] have n: "length rs = length credentials" by simp
  have e: "new_events w w' = evs" using f(3) by (rule new_events_append)
  have e2: "evs2 = evs" using f(3) g(2) same(2) by simp
  have c: "check_bulk credentials s w = Inr (rs, s', w')"
    using f(1) by (simp add: check_bulk_def)
  have 4: "rs = map (\<lambda>((sb, wb), (r, sa, wa)). r) (pair_calls credentials s w)"
    using same(1) by (simp add: case_prod_beta)
  have 5: "list_all2
             (\<lambda>cred ((sb, wb), (r, sa, wa)).
                check_single (the (cred ''email'')) (the (cred ''password'')) sb wb = (r, sa, wa))
             credentials (pair_calls credentials s w)"
    using pair_calls_each [of credentials s w]
    by (rule list_all2_mono) (auto simp: case_prod_beta)
  have 6: "\<forall>((sb, wb), (r, sa, wa))\<in>set (pair_calls credentials s w).
              (res_valid r \<longleftrightarrow> (\<exists>ev\<in>set (new_events wb wa). success_signal ev)) \<and>
              (\<exists>pre post. evs = pre @ new_events wb wa @ post)"
    using pair_calls_valid [of credentials s w] g(3) unfolding e2
    by (simp add: case_prod_beta)
  show ?thesis
    apply (rule exI [of _ rs], rule exI [of _ s'], rule exI [of _ w'])
    unfolding e using c n f(2) 4 5 6 f(4) by (intro conjI)
qed

theorem check_bulk_one_result_per_pair_witness:
  "is_pair (cred ''a@x.com'' ''p1'') \<and> is_pair (cred ''b@x.com'' ''p2'') \<and>
   \<not> isl (check_bulk [cred ''a@x.com'' ''p1'', cred ''b@x.com'' ''p2''] (fresh False) scenario_world) \<and>
   map res_email (fst (projr (check_bulk [cred ''a@x.com'' ''p1'', cred ''b@x.com'' ''p2'']
                                 (fresh False) scenario_world)))
     = [''a@x.com'', ''b@x.com''] \<and>
   map res_valid (fst (projr (check_bulk [cred ''a@x.com'' ''p1'', cred ''b@x.com'' ''p2'']
                                 (fresh False) scenario_world)))
     = [True, False] \<and>
   map (\<lambda>((sb, wb), (r, sa, wa)). res_valid r)
       (pair_calls [cred ''a@x.com'' ''p1'', cred ''b@x.com'' ''p2''] (fresh False) scenario_world)
     = [True, False]"
proof -
  let ?creds = "[cred ''a@x.com'' ''p1'', cred ''b@x.com'' ''p2'']"
  have p: "is_pair (cred ''a@x.com'' ''p1'')" "is_pair (cred ''b@x.com'' ''p2'')"
    by (simp_all add: is_pair_def cred_def)
  then have "\<forall>c\<in>set ?creds. is_pair c" by simp
  from check_bulk_one_result_per_pair [OF this, of "fresh False" scenario_world]
  obtain results s' w' where
    r: "check_bulk ?creds (fresh False) scenario_world = Inr (results, s', w')"
    and m: "map (\<lambda>r. (Some (res_email r), Some (res_password r))) results
              = map (\<lambda>c. (c ''email'', c ''password'')) ?creds"
    and q: "results = map (\<lambda>((sb, wb), (r, sa, wa)). r)
                        (pair_calls ?creds (fresh False) scenario_world)"
    by (elim exE conjE) (rule that; assumption)
  from arg_cong [OF m, of "map (\<lambda>x. the (fst x))"]
  have e: "map res_email results = [''a@x.com'', ''b@x.com'']"
    by (simp add: cred_def comp_def)
  have v: "map res_valid (fst (projr (check_bulk ?creds (fresh False) scenario_world)))
             = [True, False]"
    by (simp add: check_bulk_def cred_def pace_def random_uniform_def random_random_def
        eval_defs scenario_world_def)
  from v r have "map res_valid results = [True, False]" by simp
  with q have "map res_valid (map (\<lambda>((sb, wb), (r, sa, wa)). r)
                  (pair_calls ?creds (fresh False) scenario_world)) = [True, False]"
    by (simp only:)
  then have c: "map (\<lambda>((sb, wb), (r, sa, wa)). res_valid r)
                  (pair_calls ?creds (fresh False) scenario_world) = [True, False]"
    by (simp only: map_map comp_def split_def)
  from p r e v c show ?thesis
    by (simp only: sum.disc sum.sel fst_conv simp_thms)
qed

subsection \<open>The valid flag\<close>

text \<open>
  Claim C2. The \<^verbatim>\<open>valid\<close> flag of the result of \<^verbatim>\<open>check_single\<close> is true if and only if
  one of the requests the call made is a login request answered 200 whose JSON body carries
  a truthy \<^verbatim>\<open>token\<close>. In particular, when a login request of the call is answered 200 with
  a JSON object whose \<^verbatim>\<open>token\<close> is absent, null or the empty string, the pair is invalid.
\<close>

theorem valid_iff_success_signal:
  assumes "check_single em pw s w = (r, s', w')"
  shows "(res_valid r \<longleftrightarrow> (\<exists>ev\<in>set (new_events w w'). success_signal ev)) \<and>
         (\<forall>ev\<in>set (new_events w w'). \<forall>resp kvs.
            login_answer ev = Some resp \<and> status_code resp = 200 \<and>
            json_body resp = Some (JObj kvs) \<and>
            (map_of (rev kvs) ''token'' = None \<or> map_of (rev kvs) ''token'' = Some JNull \<or>
             map_of (rev kvs) ''token'' = Some (JStr ''''))
            \<longrightarrow> \<not> res_valid r)"
proof -
  from check_single_world [OF assms] obtain t where
    t: "settled t (new_events w w')" "res_valid r = truthy t" by blast
  have "res_valid r \<longleftrightarrow> (\<exists>ev\<in>set (new_events w w'). success_signal ev)"
    using settled_truthy [OF t(1)] t(2) by simp
  moreover have "\<not> res_valid r"
    if "ev \<in> set (new_events w w')" "login_answer ev = Some resp" "status_code resp = 200"
      "json_body resp = Some (JObj kvs)"
      "map_of (rev kvs) ''token'' = None \<or> map_of (rev kvs) ''token'' = Some JNull \<or>
       map_of (rev kvs) ''token'' = Some (JStr '''')"
    for ev resp kvs
  proof -
    from settled_200_last [OF t(1) that(1-3)] have "t = token_of resp" by simp
    with that(4,5) have "\<not> truthy t"
      by (auto simp: token_of_def dict_get_def)
    with t(2) show ?thesis by simp
  qed
  ultimately show ?thesis by blast
qed

theorem valid_iff_success_signal_witness:
  "res_valid (fst (check_single ''a@x.com'' ''p1'' (fresh False) accepting_world)) \<and>
   \<not> res_valid (fst (check_single ''b@x.com'' ''p2'' (fresh False) rejecting_world))"
proof -
  let ?A = "check_single ''a@x.com'' ''p1'' (fresh False) accepting_world"
  let ?B = "check_single ''b@x.com'' ''p2'' (fresh False) rejecting_world"
  let ?resp = "answer 200 (Some (JObj [(''token'', JStr [])]))"
  let ?P = "Exchange (POST login_url [(''email'', ''b@x.com''), (''password'', ''p2''),
                                      (''_csrf'', ''dummy_csrf_token'')]) (Returns ?resp)"
  have "\<exists>ev\<in>set (new_events accepting_world (snd (snd ?A))). success_signal ev"
    by (simp add: eval_defs accepting_world_def success_signal_def login_answer_def token_of_def)
  with valid_iff_success_signal [OF triple_eq [of ?A]] have a: "res_valid (fst ?A)"
    by blast
  have "?P \<in> set (new_events rejecting_world (snd (snd ?B)))"
    by (simp add: eval_defs rejecting_world_def)
  moreover have "login_answer ?P = Some ?resp" "status_code ?resp = 200"
    "json_body ?resp = Some (JObj [(''token'', JStr [])])"
    "map_of (rev [(''token'', JStr [])]) ''token'' = Some (JStr [])"
    by (simp_all add: login_answer_def answer_def)
  ultimately have "\<not> res_valid (fst ?B)"
    using valid_iff_success_signal [OF triple_eq [of ?B]] by blast
  with a show ?thesis by simp
qed

subsection \<open>Rejected outcomes\<close>

text \<open>
  Claim C3. A Rejected answer is terminal: whenever a login request of the call is answered
  200 with a JSON object that has no truthy token, the result is invalid and that answer is
  the last event of the call, so nothing is retried after it. The call then has exactly one
  attempt, unless an earlier attempt of it was rate limited or hit a request error, the two
  outcomes that the loop retries. In particular a call whose first attempt is rejected makes
  exactly one attempt.
\<close>

theorem rejected_is_terminal:
  assumes "check_single em pw s w = (r, s', w')"
  shows "(\<forall>ev\<in>set (new_events w w'). rejected ev \<longrightarrow>
            \<not> res_valid r \<and> last (new_events w w') = ev \<and>
            ((\<forall>ev'\<in>set (new_events w w'). \<not> rate_limited ev' \<and> \<not> request_error ev') \<longrightarrow>
               attempts (new_events w w') = 1)) \<and>
         (first_attempt_rejected s w \<longrightarrow>
            \<not> res_valid r \<and> attempts (new_events w w') = 1 \<and> rejected (last (new_events w w')))"
proof -
  from check_single_world [OF assms] obtain t where
    t: "settled t (new_events w w')" "res_valid r = truthy t" by blast
  from check_single_unfold [OF assms] obtain t' s1 where
    g: "get_auth_token em pw s w = (t', s1, w')" and r: "res_valid r = truthy t'"
    by auto
  have one: "\<not> res_valid r \<and> last (new_events w w') = ev \<and>
            ((\<forall>ev'\<in>set (new_events w w'). \<not> rate_limited ev' \<and> \<not> request_error ev') \<longrightarrow>
               attempts (new_events w w') = 1)"
    if "ev \<in> set (new_events w w')" "rejected ev" for ev
  proof -
    from that(2) obtain resp where
      la: "login_answer ev = Some resp" "status_code resp = 200" "\<not> truthy (token_of resp)"
      by (auto simp: rejected_def token_of_def split: option.splits json.splits)
    from settled_200_last [OF t(1) that(1) la(1,2)] la(3) t(2)
    have "\<not> res_valid r \<and> last (new_events w w') = ev" by simp
    with one_attempt_unless_retried [OF g] show ?thesis by blast
  qed
  have two: "\<not> res_valid r \<and> attempts (new_events w w') = 1 \<and> rejected (last (new_events w w'))"
    if "first_attempt_rejected s w"
  proof -
    from rejected_step [OF that, of 2 0 em pw] obtain w2 G P t0 where
      w2: "trace w2 = trace w @ [G, P]" "attempts [G, P] = 1" "rejected P" "\<not> truthy t0"
      and a: "attempt_once 2 0 em pw s w = (Return t0, s, w2)"
      by blast
    from a g have "t' = t0" "w' = w2" by (simp_all add: get_auth_token_unroll)
    with w2 r show ?thesis by (simp add: new_events_def)
  qed
  from one two show ?thesis by blast
qed

theorem rejected_is_terminal_witness:
  "first_attempt_rejected (fresh False) rejecting_world \<and>
   \<not> res_valid (fst (check_single ''b@x.com'' ''p2'' (fresh False) rejecting_world)) \<and>
   attempts (new_events rejecting_world
      (snd (snd (check_single ''b@x.com'' ''p2'' (fresh False) rejecting_world)))) = 1 \<and>
   last (new_events rejecting_world
      (snd (snd (check_single ''b@x.com'' ''p2'' (fresh False) rejecting_world))))
     = Exchange (POST login_url [(''email'', ''b@x.com''), (''password'', ''p2''),
                                 (''_csrf'', ''dummy_csrf_token'')])
         (Returns (answer 200 (Some (JObj [(''token'', JStr [])])))) \<and>
   \<not> res_valid (fst (check_single ''b@x.com'' ''p2'' (fresh False) limit_then_reject_world)) \<and>
   last (new_events limit_then_reject_world
      (snd (snd (check_single ''b@x.com'' ''p2'' (fresh False) limit_then_reject_world))))
     = Exchange (POST login_url [(''email'', ''b@x.com''), (''password'', ''p2''),
                                 (''_csrf'', ''dummy_csrf_token'')])
         (Returns (answer 200 (Some (JObj []))))"
proof -
  let ?B = "check_single ''b@x.com'' ''p2'' (fresh False) rejecting_world"
  let ?C = "check_single ''b@x.com'' ''p2'' (fresh False) limit_then_reject_world"
  let ?P = "Exchange (POST login_url [(''email'', ''b@x.com''), (''password'', ''p2''),
                                      (''_csrf'', ''dummy_csrf_token'')])
              (Returns (answer 200 (Some (JObj [(''token'', JStr [])]))))"
  let ?Q = "Exchange (POST login_url [(''email'', ''b@x.com''), (''password'', ''p2''),
                                      (''_csrf'', ''dummy_csrf_token'')])
              (Returns (answer 200 (Some (JObj []))))"
  have f: "first_attempt_rejected (fresh False) rejecting_world"
    by (simp add: first_attempt_rejected_def rejecting_world_def stub_world_def answer_def
        dict_get_def)
  have m: "?P \<in> set (new_events rejecting_world (snd (snd ?B)))"
    by (simp add: eval_defs rejecting_world_def)
  have n: "\<forall>ev'\<in>set (new_events rejecting_world (snd (snd ?B))).
             \<not> rate_limited ev' \<and> \<not> request_error ev'"
    by (simp add: eval_defs rejecting_world_def rate_limited_def request_error_def
        login_answer_def)
  have r: "rejected ?P"
    by (simp add: rejected_def login_answer_def answer_def dict_get_def)
  have m': "?Q \<in> set (new_events limit_then_reject_world (snd (snd ?C)))"
    by (simp add: eval_defs limit_then_reject_world_def)
  have r': "rejected ?Q"
    by (simp add: rejected_def login_answer_def answer_def dict_get_def)
  from rejected_is_terminal [OF triple_eq [of ?B]] rejected_is_terminal [OF triple_eq [of ?C]]
    f m n r m' r'
  show ?thesis by blast
qed

subsection \<open>Rate limiting without a proxy\<close>

text \<open>
  Claim C4. With strict proxy mode on (\<^verbatim>\<open>use_proxy\<close>), every attempt rate limited (403 or
  429) and proxy acquisition always failing, the result is invalid and the call makes exactly
  one attempt, fewer than the bound 2 of the retry loop.
\<close>

theorem rate_limited_without_proxy_aborts:
  assumes "check_single em pw s w = (r, s', w')"
    and "use_proxy s" and "always_rate_limited w" and "never_acquires w"
  shows "\<not> res_valid r \<and> attempts (new_events w w') = 1 \<and> attempts (new_events w w') < 2"
proof -
  from check_single_unfold [OF assms(1)] obtain t s1 where
    g: "get_auth_token em pw s w = (t, s1, w')" and r: "res_valid r = truthy t"
    by auto
  from rate_limited_step [OF assms(3), of 2 0 em pw s] obtain w2 G P where
    w2: "same_srcs w w2" "trace w2 = trace w @ [G, P]" "attempts [G, P] = 1"
    and a: "attempt_once 2 0 em pw s w =
             (case rotate_proxy (use_proxy s) s w2 of
                (ok, s', w') \<Rightarrow> (if ok then Continue else Return JNull, s', w'))"
    by blast
  obtain ok s3 w3 where rp: "rotate_proxy True s w2 = (ok, s3, w3)"
    by (cases "rotate_proxy True s w2") auto
  have "never_acquires w2" using assms(4) w2(1) never_acquires_cong by blast
  from rotate_proxy_never [OF this rp] have "\<not> ok" .
  with a rp assms(2) have "attempt_once 2 0 em pw s w = (Return JNull, s3, w3)" by simp
  with g have t: "t = JNull" and w': "w' = w3"
    by (simp_all add: get_auth_token_unroll)
  from rotate_proxy_world [OF rp] obtain rot where
    rot: "trace w3 = trace w2 @ rot" "list_all rot_event rot" by blast
  have "new_events w w' = [G, P] @ rot"
    using w' rot(1) w2(2) by (simp add: new_events_def)
  then have "attempts (new_events w w') = 1"
    using w2(3) rot_events_quiet [OF rot(2)] by (simp only: attempts_append)
  with r t show ?thesis by simp
qed

theorem rate_limited_without_proxy_aborts_witness:
  "use_proxy (fresh True) \<and> always_rate_limited limiting_world \<and> never_acquires limiting_world \<and>
   \<not> res_valid (fst (check_single ''a@x.com'' ''p1'' (fresh True) limiting_world)) \<and>
   attempts (new_events limiting_world
      (snd (snd (check_single ''a@x.com'' ''p1'' (fresh True) limiting_world)))) = 1"
proof -
  have u: "use_proxy (fresh True)" by (simp add: fresh_def)
  have l: "always_rate_limited limiting_world"
    by (simp add: always_rate_limited_def limiting_world_def stub_world_def answer_def)
  have n: "never_acquires limiting_world"
    unfolding limiting_world_def by (rule never_acquires_when_fetch_raises)
  from rate_limited_without_proxy_aborts
         [OF triple_eq [of "check_single ''a@x.com'' ''p1'' (fresh True) limiting_world"] u l n]
    u l n
  show ?thesis by simp
qed

subsection \<open>Transient failures\<close>




subsection \<open>Proxy acquisition\<close>

text \<open>
  Claim C6. \<^verbatim>\<open>_rotate_proxy\<close> fetches a proxy at most 5 times when \<open>strict\<close> holds and at
  most 3 times otherwise. It never raises: every exception of its collaborators is caught,
  and it returns a flag. Without \<open>strict\<close> the flag is always true. The flag is false only
  with \<open>strict\<close> and after exactly 5 fetches. When acquisition always fails, the strict call
  makes exactly 5 fetches and signals failure, and the other call makes exactly 3 fetches,
  clears \<^verbatim>\<open>self.proxy\<close> and \<^verbatim>\<open>session.proxies\<close> and signals success.
\<close>

theorem rotate_proxy_retry_bounds:
  assumes "rotate_proxy strict s w = (ok, s', w')"
  shows "proxy_calls w' \<le> proxy_calls w + (if strict then 5 else 3) \<and>
         (\<not> strict \<longrightarrow> ok) \<and>
         (\<not> ok \<longrightarrow> strict \<and> proxy_calls w' = proxy_calls w + 5) \<and>
         (never_acquires w \<longrightarrow>
            ok = (\<not> strict) \<and>
            proxy_calls w' = proxy_calls w + (if strict then 5 else 3) \<and>
            (\<not> strict \<longrightarrow> proxy s' = None \<and> session_proxies s' = []))"
proof -
  let ?n = "if strict then 5 else 3 :: nat"
  obtain b s1 w1 where l: "rotate_loop [0..<?n] s w = (b, s1, w1)"
    by (cases "rotate_loop [0..<?n] s w") auto
  note lw = rotate_loop_world [OF l]
  from assms l have w': "w' = w1" and ok: "ok = (b \<or> \<not> strict)"
    and s': "\<not> b \<Longrightarrow> \<not> strict \<Longrightarrow> s' = s1\<lparr>proxy := None, session_proxies := []\<rparr>"
    by (auto simp: rotate_proxy_def Let_def split: if_splits bool.splits)
  have nv: "never_acquires w \<Longrightarrow> \<not> b"
    using rotate_loop_never [OF _ l] by simp
  from lw w' ok s' nv show ?thesis
    by (cases strict) auto
qed

theorem rotate_proxy_retry_bounds_witness:
  "never_acquires failing_world \<and>
   \<not> fst (rotate_proxy True (fresh True) failing_world) \<and>
   proxy_calls (snd (snd (rotate_proxy True (fresh True) failing_world))) = 5 \<and>
   fst (rotate_proxy False (fresh False) failing_world) \<and>
   proxy (fst (snd (rotate_proxy False (fresh False) failing_world))) = None \<and>
   session_proxies (fst (snd (rotate_proxy False (fresh False) failing_world))) = [] \<and>
   proxy_calls (snd (snd (rotate_proxy False (fresh False) failing_world))) = 3"
proof -
  have nv: "never_acquires failing_world"
    unfolding failing_world_def by (rule never_acquires_when_fetch_raises)
  have pc: "proxy_calls failing_world = 0"
    by (simp add: failing_world_def stub_world_def)
  from rotate_proxy_retry_bounds [OF triple_eq [of "rotate_proxy True (fresh True) failing_world"]]
    rotate_proxy_retry_bounds [OF triple_eq [of "rotate_proxy False (fresh False) failing_world"]]
    nv pc
  show ?thesis by simp
qed

subsection \<open>The token extractor\<close>

text \<open>
  Claim C7, as the code has it. The extractor of \<^verbatim>\<open>kroger_checker_final.py\<close> takes, for
  each of its four patterns in the order meta tag, script state, hidden field, JSON key, group
  1 of the leftmost match of the pattern, and returns the first of these captured values that
  is longer than 10 characters, or nothing when there is none. For a body in which the tag
  \<^verbatim>\<open><meta name="csrf-token" content="abcdef0123456789">\<close> is the leftmost match of the meta
  pattern it returns \<^verbatim>\<open>abcdef0123456789\<close>. The extractor of
  \<^verbatim>\<open>kroger_checker_strict_proxy.py\<close> has no patterns: for a body without the marker
  \<^verbatim>\<open>_csrf":"\<close> it returns the placeholder \<^verbatim>\<open>dummy_csrf_token\<close>, and otherwise it returns
  the text that follows the leftmost marker, up to the first of the next double quote, the
  next marker and the end of the body. (The claim fails for a body that contains the tag
  behind an earlier meta tag with a short token, and for the second extractor.)
\<close>

theorem extract_csrf_first_long_capture:
  "extract_csrf_final html =
     (case filter (\<lambda>token. length token > 10) (List.map_filter (\<lambda>p. capture p html) patterns) of
        [] \<Rightarrow> None
      | token # others \<Rightarrow> Some token) \<and>
   patterns = [meta_pattern, state_pattern, input_pattern, json_pattern] \<and>
   (no_match_inside meta_pattern pre (meta_tag @ post) \<longrightarrow>
      extract_csrf_final (pre @ meta_tag @ post) = Some ''abcdef0123456789'') \<and>
   (marker_free html [] \<longrightarrow> extract_csrf html = ''dummy_csrf_token'') \<and>
   (marker_free pre (csrf_marker @ tok @ stop) \<and> dquote \<notin> set tok \<and> marker_free tok stop \<and>
    (stop = [] \<or> hd stop = dquote \<or> take (length csrf_marker) stop = csrf_marker) \<longrightarrow>
      extract_csrf (pre @ csrf_marker @ tok @ stop) = tok)"
proof -
  have 1: "extract_csrf_final html =
     (case filter (\<lambda>token. length token > 10) (List.map_filter (\<lambda>p. capture p html) patterns) of
        [] \<Rightarrow> None
      | token # others \<Rightarrow> Some token)"
    unfolding extract_csrf_final_def
    by (rule extract_loop_first_long) (rule patterns_have_group)
  have 2: "extract_csrf_final (pre @ meta_tag @ post) = Some ''abcdef0123456789''"
    if "no_match_inside meta_pattern pre (meta_tag @ post)"
  proof -
    have "re_search meta_pattern (pre @ meta_tag @ post) = Some (Some ''abcdef0123456789'')"
      using re_search_skip [OF that] re_search_meta_tag by simp
    then show ?thesis
      by (simp add: extract_csrf_final_def patterns_def)
  qed
  have 3: "extract_csrf html = ''dummy_csrf_token''" if "marker_free html []"
    using after_marker_absent [OF that] by (simp add: extract_csrf_def)
  have 4: "extract_csrf (pre @ csrf_marker @ tok @ stop) = tok"
    if "marker_free pre (csrf_marker @ tok @ stop) \<and> dquote \<notin> set tok \<and> marker_free tok stop \<and>
        (stop = [] \<or> hd stop = dquote \<or> take (length csrf_marker) stop = csrf_marker)"
    using that by (intro extract_csrf_token) simp_all
  have 5: "patterns = [meta_pattern, state_pattern, input_pattern, json_pattern]"
    by (simp add: patterns_def)
  from 1 5 2 3 4 show ?thesis by (intro conjI impI)
qed

theorem extract_csrf_first_long_capture_witness:
  \<open>no_match_inside meta_pattern ''<html><head>'' (meta_tag @ ''</head></html>'') \<and>
   extract_csrf_final (''<html><head>'' @ meta_tag @ ''</head></html>'') = Some ''abcdef0123456789'' \<and>
   marker_free ''<p>sign in</p>'' [] \<and> extract_csrf ''<p>sign in</p>'' = ''dummy_csrf_token'' \<and>
   marker_free ''{"'' (csrf_marker @ ''tok123'' @ ''","n":1}'') \<and>
   marker_free ''tok123'' ''","n":1}'' \<and>
   extract_csrf (''{"'' @ csrf_marker @ ''tok123'' @ ''","n":1}'') = ''tok123''\<close>
proof -
  have n: "no_match_inside meta_pattern ''<html><head>'' (meta_tag @ ''</head></html>'')"
    by (simp add: no_match_inside_def meta_pattern_def lit_def meta_tag_def less_Suc_eq
        numeral_nat)
  have a: "marker_free ''<p>sign in</p>'' []"
    by (simp add: marker_free_def csrf_marker_def less_Suc_eq numeral_nat)
  have b: \<open>marker_free ''{"'' (csrf_marker @ ''tok123'' @ ''","n":1}'')\<close>
    by (simp add: marker_free_def csrf_marker_def less_Suc_eq numeral_nat)
  have c: \<open>marker_free ''tok123'' ''","n":1}''\<close>
    by (simp add: marker_free_def csrf_marker_def less_Suc_eq numeral_nat)
  have d: \<open>dquote \<notin> set ''tok123''\<close> \<open>hd ''","n":1}'' = dquote\<close>
    by (simp_all add: dquote_def)
  from extract_csrf_first_long_capture
         [of "''<p>sign in</p>''" "''<html><head>''" "''</head></html>''"]
    n a
  have 1: "extract_csrf_final (''<html><head>'' @ meta_tag @ ''</head></html>'')
             = Some ''abcdef0123456789''"
    "extract_csrf ''<p>sign in</p>'' = ''dummy_csrf_token''"
    by blast+
  from extract_csrf_first_long_capture
         [of "[]" \<open>''{"''\<close> "[]" \<open>''tok123''\<close> \<open>''","n":1}''\<close>] b c d
  have 2: \<open>extract_csrf (''{"'' @ csrf_marker @ ''tok123'' @ ''","n":1}'') = ''tok123''\<close>
    by blast
  from n a b c 1 2 show ?thesis by (intro conjI)
qed

theorem extract_csrf_counterexample:
  "extract_csrf_final (short_meta_tag @ meta_tag) = None \<and>
   extract_csrf meta_tag = ''dummy_csrf_token''"
  by (simp add: extract_csrf_final_def patterns_def meta_pattern_def state_pattern_def
      input_pattern_def json_pattern_def lit_def is_space_def dquote_def short_meta_tag_def
      meta_tag_def extract_csrf_def csrf_marker_def)

subsection \<open>Cooldown\<close>




subsection \<open>The reserved custom check\<close>

text \<open>
  Claim C9. In the loop over the custom checks of \<^verbatim>\<open>email_checker_final.py\<close> an entry whose
  name is \<^verbatim>\<open>example_check\<close> in any letter case is skipped whatever its \<^verbatim>\<open>enabled\<close> flag
  says: the loop does exactly what it does on the list without these entries, the queries it
  sends are those of the other enabled entries, and no count is stored under a reserved name.
\<close>

theorem reserved_check_skipped:
  "custom_checks_loop checks imap counts
     = custom_checks_loop (filter (\<lambda>c. \<not> is_reserved (fst c)) checks) imap counts \<and>
   (\<forall>counts' imap'. custom_checks_loop checks imap counts = Inr (counts', imap') \<longrightarrow>
      queries imap' = queries imap @
        map (\<lambda>c. from_query (the (email (snd c))))
            (filter (\<lambda>c. \<not> is_reserved (fst c) \<and> is_enabled (snd c)) checks) \<and>
      (\<forall>name. is_reserved name \<longrightarrow> counts' name = counts name))"
  using custom_checks_loop_filter custom_checks_loop_effect by blast

theorem reserved_check_skipped_witness:
  "is_reserved ''Example_Check'' \<and> is_enabled (snd (hd stub_checks)) \<and>
   custom_checks_loop stub_checks stub_mailbox Map.empty
     = Inr ([''github'' \<mapsto> 2], stub_mailbox\<lparr>queries := [from_query ''noreply@github.com'']\<rparr>) \<and>
   custom_checks_loop stub_checks stub_mailbox Map.empty
     = custom_checks_loop (filter (\<lambda>c. \<not> is_reserved (fst c)) stub_checks) stub_mailbox Map.empty \<and>
   queries (stub_mailbox\<lparr>queries := [from_query ''noreply@github.com'']\<rparr>)
     = [from_query ''noreply@github.com''] \<and>
   [''github'' \<mapsto> (2::nat)] ''Example_Check'' = None"
proof -
  have r: "is_reserved ''Example_Check''" "\<not> is_reserved ''github''"
    by (simp_all add: is_reserved_def lower_stub_names)
  have e: "is_enabled (snd (hd stub_checks))"
    by (simp add: is_enabled_def stub_checks_def)
  have c: "custom_checks_loop stub_checks stub_mailbox Map.empty
     = Inr ([''github'' \<mapsto> 2], stub_mailbox\<lparr>queries := [from_query ''noreply@github.com'']\<rparr>)"
    by (simp add: stub_checks_def stub_mailbox_def lower_stub_names fetch_emails_def Let_def
        numeral_2_eq_2)
  from reserved_check_skipped [of stub_checks stub_mailbox Map.empty] c r e
  show ?thesis by (simp add: stub_mailbox_def)
qed

subsection \<open>The two collections\<close>

text \<open>
  Claim C10. After any sequence of \<^verbatim>\<open>check_single\<close> calls on a new checker,
  \<^verbatim>\<open>valid_creds\<close> holds the results whose flag is true and \<^verbatim>\<open>invalid_creds\<close> the others,
  each in the order produced: the two lists are disjoint, every result is in exactly one of
  them, and their lengths add up to the number of pairs processed. The next call of
  \<^verbatim>\<open>check_single\<close> appends its result to exactly one of the two lists, by its flag, and a
  batch does the same for each of its pairs. The same holds for the browser checker.
\<close>

theorem results_partitioned:
  assumes "init_checker up w0 = (s0, w1)" and "check_each ps s0 w1 = (rs, s, w)"
    and "browser_check_each calls browser_init = (brs, bs)"
  shows "map (\<lambda>r. (res_email r, res_password r)) rs = ps \<and>
         valid_creds s = filter res_valid rs \<and>
         invalid_creds s = filter (\<lambda>r. \<not> res_valid r) rs \<and>
         set (valid_creds s) \<inter> set (invalid_creds s) = {} \<and>
         (\<forall>r\<in>set rs. (r \<in> set (valid_creds s)) \<noteq> (r \<in> set (invalid_creds s))) \<and>
         length (valid_creds s) + length (invalid_creds s) = length ps \<and>
         (\<forall>em pw r s' w'. check_single em pw s w = (r, s', w') \<longrightarrow>
            (if res_valid r
             then valid_creds s' = valid_creds s @ [r] \<and> invalid_creds s' = invalid_creds s
             else invalid_creds s' = invalid_creds s @ [r] \<and> valid_creds s' = valid_creds s)) \<and>
         (\<forall>credentials. (\<forall>c\<in>set credentials. is_pair c) \<longrightarrow>
            (\<exists>rs' s' w'. check_bulk credentials s w = Inr (rs', s', w') \<and>
               length rs' = length credentials \<and>
               valid_creds s' = valid_creds s @ filter res_valid rs' \<and>
               invalid_creds s' = invalid_creds s @ filter (\<lambda>r. \<not> res_valid r) rs')) \<and>
         map (\<lambda>r. (bres_valid r, bres_email r, bres_password r)) brs = calls \<and>
         browser_valid_creds bs = filter bres_valid brs \<and>
         browser_invalid_creds bs = filter (\<lambda>r. \<not> bres_valid r) brs \<and>
         set (browser_valid_creds bs) \<inter> set (browser_invalid_creds bs) = {} \<and>
         (\<forall>r\<in>set brs. (r \<in> set (browser_valid_creds bs)) \<noteq> (r \<in> set (browser_invalid_creds bs))) \<and>
         length (browser_valid_creds bs) + length (browser_invalid_creds bs) = length calls"
proof -
  from init_checker_lists [OF assms(1)] have e: "valid_creds s0 = []" "invalid_creds s0 = []"
    by simp_all
  from check_each_lists [OF assms(2)] e have
    l: "map (\<lambda>r. (res_email r, res_password r)) rs = ps"
    "valid_creds s = filter res_valid rs" "invalid_creds s = filter (\<lambda>r. \<not> res_valid r) rs"
    by simp_all
  from arg_cong [OF l(1), of length] have n: "length rs = length ps" by simp
  have step: "if res_valid r
             then valid_creds s' = valid_creds s @ [r] \<and> invalid_creds s' = invalid_creds s
             else invalid_creds s' = invalid_creds s @ [r] \<and> valid_creds s' = valid_creds s"
    if "check_single em pw s w = (r, s', w')" for em pw r s' w'
    using check_single_lists [OF that] by auto
  have batch: "\<exists>rs' s' w'. check_bulk credentials s w = Inr (rs', s', w') \<and>
               length rs' = length credentials \<and>
               valid_creds s' = valid_creds s @ filter res_valid rs' \<and>
               invalid_creds s' = invalid_creds s @ filter (\<lambda>r. \<not> res_valid r) rs'"
    if "\<forall>c\<in>set credentials. is_pair c" for credentials
  proof -
    from check_bulk_loop_total [OF that, of "[]" s w] obtain rs' s' w' where
      f: "check_bulk_loop credentials [] s w = Inr ([] @ rs', s', w')"
      "map (\<lambda>r. (Some (res_email r), Some (res_password r))) rs'
         = map (\<lambda>cred. (cred ''email'', cred ''password'')) credentials"
      "valid_creds s' = valid_creds s @ filter res_valid rs'"
      "invalid_creds s' = invalid_creds s @ filter (\<lambda>r. \<not> res_valid r) rs'"
      by (elim exE conjE) (rule that; assumption)
    from arg_cong [OF f(2), of length] have m: "length rs' = length credentials" by simp
    have c: "check_bulk credentials s w = Inr (rs', s', w')"
      using f(1) by (simp add: check_bulk_def)
    show ?thesis
      apply (rule exI [of _ rs'], rule exI [of _ s'], rule exI [of _ w'])
      using c m f(3) f(4) by (intro conjI)
  qed
  from browser_check_each_lists [OF assms(3)] have
    b: "map (\<lambda>r. (bres_valid r, bres_email r, bres_password r)) brs = calls"
    "browser_valid_creds bs = filter bres_valid brs"
    "browser_invalid_creds bs = filter (\<lambda>r. \<not> bres_valid r) brs"
    by (simp_all add: browser_init_def)
  from arg_cong [OF b(1), of length] have bn: "length brs = length calls" by simp
  have 1: "set (valid_creds s) \<inter> set (invalid_creds s) = {}"
    unfolding l(2,3) by (rule partition_disjoint)
  have 2: "\<forall>r\<in>set rs. (r \<in> set (valid_creds s)) \<noteq> (r \<in> set (invalid_creds s))"
    unfolding l(2,3) by (rule partition_exactly_one)
  have 3: "length (valid_creds s) + length (invalid_creds s) = length ps"
    unfolding l(2,3) using partition_length [of res_valid rs] n by simp
  have 4: "\<forall>em pw r s' w'. check_single em pw s w = (r, s', w') \<longrightarrow>
            (if res_valid r
             then valid_creds s' = valid_creds s @ [r] \<and> invalid_creds s' = invalid_creds s
             else invalid_creds s' = invalid_creds s @ [r] \<and> valid_creds s' = valid_creds s)"
    by (intro allI impI) (rule step)
  have 5: "\<forall>credentials. (\<forall>c\<in>set credentials. is_pair c) \<longrightarrow>
            (\<exists>rs' s' w'. check_bulk credentials s w = Inr (rs', s', w') \<and>
               length rs' = length credentials \<and>
               valid_creds s' = valid_creds s @ filter res_valid rs' \<and>
               invalid_creds s' = invalid_creds s @ filter (\<lambda>r. \<not> res_valid r) rs')"
    by (intro allI impI) (rule batch)
  have 6: "set (browser_valid_creds bs) \<inter> set (browser_invalid_creds bs) = {}"
    unfolding b(2,3) by (rule partition_disjoint)
  have 7: "\<forall>r\<in>set brs. (r \<in> set (browser_valid_creds bs)) \<noteq> (r \<in> set (browser_invalid_creds bs))"
    unfolding b(2,3) by (rule partition_exactly_one)
  have 8: "length (browser_valid_creds bs) + length (browser_invalid_creds bs) = length calls"
    unfolding b(2,3) using partition_length [of bres_valid brs] bn by simp
  from l 1 2 3 4 5 b 6 7 8 show ?thesis by (intro conjI)
qed

theorem results_partitioned_witness:
  "length (valid_creds (fst (snd (check_each [(''a@x.com'', ''p1''), (''b@x.com'', ''p2'')]
                                    (fresh False) scenario_world)))) +
   length (invalid_creds (fst (snd (check_each [(''a@x.com'', ''p1''), (''b@x.com'', ''p2'')]
                                    (fresh False) scenario_world)))) = 2 \<and>
   set (valid_creds (fst (snd (check_each [(''a@x.com'', ''p1''), (''b@x.com'', ''p2'')]
                                    (fresh False) scenario_world)))) \<inter>
   set (invalid_creds (fst (snd (check_each [(''a@x.com'', ''p1''), (''b@x.com'', ''p2'')]
                                    (fresh False) scenario_world)))) = {} \<and>
   is_pair (cred ''c@x.com'' ''p3'') \<and>
   \<not> isl (check_bulk [cred ''c@x.com'' ''p3'']
            (fst (snd (check_each [(''a@x.com'', ''p1''), (''b@x.com'', ''p2'')]
                         (fresh False) scenario_world)))
            (snd (snd (check_each [(''a@x.com'', ''p1''), (''b@x.com'', ''p2'')]
                         (fresh False) scenario_world)))) \<and>
   length (browser_valid_creds (snd (browser_check_each
        [(True, ''a@x.com'', ''p1''), (False, ''b@x.com'', ''p2'')] browser_init))) +
   length (browser_invalid_creds (snd (browser_check_each
        [(True, ''a@x.com'', ''p1''), (False, ''b@x.com'', ''p2'')] browser_init))) = 2"
proof -
  let ?ps = "[(''a@x.com'', ''p1''), (''b@x.com'', ''p2'')]"
  let ?calls = "[(True, ''a@x.com'', ''p1''), (False, ''b@x.com'', ''p2'')]"
  let ?X = "check_each ?ps (fresh False) scenario_world"
  let ?B = "browser_check_each ?calls browser_init"
  have i: "init_checker False scenario_world = (fresh False, scenario_world)"
    by (simp add: init_checker_def fresh_def)
  have b: "?B = (fst ?B, snd ?B)"
    by (rule prod.collapse [symmetric])
  have p: "is_pair (cred ''c@x.com'' ''p3'')"
    by (simp add: is_pair_def cred_def)
  note R = results_partitioned [OF i triple_eq [of ?X] b]
  from R have 1: "length (valid_creds (fst (snd ?X))) + length (invalid_creds (fst (snd ?X)))
                    = length ?ps"
    by (elim conjE)
  from R have 2: "set (valid_creds (fst (snd ?X))) \<inter> set (invalid_creds (fst (snd ?X))) = {}"
    by (elim conjE)
  from R have 3: "length (browser_valid_creds (snd ?B)) + length (browser_invalid_creds (snd ?B))
                    = length ?calls"
    by (elim conjE)
  from R have "\<forall>credentials. (\<forall>c\<in>set credentials. is_pair c) \<longrightarrow>
            (\<exists>rs' s' w'. check_bulk credentials (fst (snd ?X)) (snd (snd ?X)) = Inr (rs', s', w') \<and>
               length rs' = length credentials \<and>
               valid_creds s' = valid_creds (fst (snd ?X)) @ filter res_valid rs' \<and>
               invalid_creds s' = invalid_creds (fst (snd ?X)) @ filter (\<lambda>r. \<not> res_valid r) rs')"
    by (elim conjE)
  from this [THEN spec, of "[cred ''c@x.com'' ''p3'']"] p
  obtain rs' s' w' where
    "check_bulk [cred ''c@x.com'' ''p3''] (fst (snd ?X)) (snd (snd ?X)) = Inr (rs', s', w')"
    by (simp del: check_each.simps) blast
  then have 4: "\<not> isl (check_bulk [cred ''c@x.com'' ''p3''] (fst (snd ?X)) (snd (snd ?X)))"
    by (simp only: sum.disc not_False_eq_True)
  have "length ?ps = 2" "length ?calls = 2" by simp_all
  with 1 2 3 4 p show ?thesis by (simp only: simp_thms)
qed

end
